theory Spec2Isabelle
  imports Main
begin

section \<open>Strings and bytes\<close>

text \<open>
  A Python \<open>str\<close> is a sequence of Unicode code points, a \<open>bytes\<close> object a sequence
  of octets.  Code points are natural numbers, octets are \<^typ>\<open>char\<close> (8 bits).
  \<open>str\<close> reads an ASCII literal as a Python string.
\<close>

type_synonym pychar = nat
type_synonym pystr = "pychar list"
type_synonym bytes = "char list"

definition str :: "string \<Rightarrow> pystr" where
  "str s = map of_char s"

definition nl :: pychar where
  "nl = 10"

definition sp :: pychar where
  "sp = 32"

text \<open>
  The characters for which \<open>str.isspace\<close> holds.  Both \<open>str.strip()\<close> and the class
  \<open>\s\<close> of a \<open>str\<close> pattern use this set.
\<close>

definition isspace :: "pychar \<Rightarrow> bool" where
  "isspace c \<longleftrightarrow>
     (9 \<le> c \<and> c \<le> 13) \<or> (28 \<le> c \<and> c \<le> 32) \<or> c = 133 \<or> c = 160 \<or> c = 5760 \<or>
     (8192 \<le> c \<and> c \<le> 8202) \<or> c = 8232 \<or> c = 8233 \<or> c = 8239 \<or> c = 8287 \<or> c = 12288"

definition strip :: "pystr \<Rightarrow> pystr" where
  "strip s = rev (dropWhile isspace (rev (dropWhile isspace s)))"

text \<open>\<open>text.split('\n')\<close>: the lines between newlines, never an empty list.\<close>

fun split_nl :: "pystr \<Rightarrow> pystr list" where
  "split_nl [] = [[]]"
| "split_nl (c # cs) =
     (if c = nl then [] # split_nl cs
      else (case split_nl cs of l # ls \<Rightarrow> (c # l) # ls | [] \<Rightarrow> [[c]]))"

text \<open>\<open>sep.join(parts)\<close>.\<close>

fun join :: "pystr \<Rightarrow> pystr list \<Rightarrow> pystr" where
  "join sep [] = []"
| "join sep [x] = x"
| "join sep (x # y # ys) = x @ sep @ join sep (y # ys)"

text \<open>\<open>sub in s\<close> for strings.\<close>

fun contains :: "pystr \<Rightarrow> pystr \<Rightarrow> bool" where
  "contains sub [] \<longleftrightarrow> sub = []"
| "contains sub (c # cs) \<longleftrightarrow> take (length sub) (c # cs) = sub \<or> contains sub cs"

section \<open>The fragment of Python's \<open>re\<close> the program uses\<close>

text \<open>
  Every pattern of the program is a sequence of greedy quantifiers over single-character
  classes, optionally anchored by \<open>^\<close>: a class once, \<open>?\<close>, \<open>*\<close>, \<open>+\<close> and \<open>{n,}\<close>.
\<close>

datatype atom =
  One "pychar \<Rightarrow> bool"
| Opt "pychar \<Rightarrow> bool"
| Star "pychar \<Rightarrow> bool"
| Plus "pychar \<Rightarrow> bool"
| AtLeast nat "pychar \<Rightarrow> bool"

fun cls :: "atom \<Rightarrow> pychar \<Rightarrow> bool" where
  "cls (One c) = c"
| "cls (Opt c) = c"
| "cls (Star c) = c"
| "cls (Plus c) = c"
| "cls (AtLeast n c) = c"

text \<open>The least and the greatest number of repetitions (\<open>None\<close>: unbounded).\<close>

fun lo :: "atom \<Rightarrow> nat" where
  "lo (One c) = 1"
| "lo (Opt c) = 0"
| "lo (Star c) = 0"
| "lo (Plus c) = 1"
| "lo (AtLeast n c) = n"

fun hi :: "atom \<Rightarrow> nat option" where
  "hi (One c) = Some 1"
| "hi (Opt c) = Some 1"
| "hi (Star c) = None"
| "hi (Plus c) = None"
| "hi (AtLeast n c) = None"

definition chr :: "pychar \<Rightarrow> pychar \<Rightarrow> bool" where
  "chr a c \<longleftrightarrow> c = a"

definition not_chr :: "pychar \<Rightarrow> pychar \<Rightarrow> bool" where
  "not_chr a c \<longleftrightarrow> c \<noteq> a"

definition lit :: "string \<Rightarrow> atom list" where
  "lit s = map (\<lambda>a. One (chr (of_char a))) s"

fun first_some :: "('a \<Rightarrow> 'b option) \<Rightarrow> 'a list \<Rightarrow> 'b option" where
  "first_some f [] = None"
| "first_some f (x # xs) = (case f x of Some y \<Rightarrow> Some y | None \<Rightarrow> first_some f xs)"

text \<open>
  The repetition counts a greedy quantifier tries at the start of \<open>s\<close>, in the order
  the backtracking matcher tries them: the longest run first.
\<close>

definition counts :: "atom \<Rightarrow> pystr \<Rightarrow> nat list" where
  "counts a s =
     (let n = length (takeWhile (cls a) s);
          m = (case hi a of None \<Rightarrow> n | Some h \<Rightarrow> min h n)
      in rev [lo a ..< Suc m])"

text \<open>
  \<open>match_here p s\<close> matches the pattern at the start of \<open>s\<close>, as \<open>re.match\<close> does, and
  returns the text each atom consumed in the first match the backtracking finds.
\<close>

primrec match_here :: "atom list \<Rightarrow> pystr \<Rightarrow> pystr list option" where
  "match_here [] s = Some []"
| "match_here (a # as) s =
     first_some (\<lambda>k. map_option ((#) (take k s)) (match_here as (drop k s))) (counts a s)"

datatype regex = Anywhere "atom list" | AtStart "atom list"

fun search_from :: "atom list \<Rightarrow> pystr \<Rightarrow> pystr list option" where
  "search_from p [] = match_here p []"
| "search_from p (c # cs) =
     (case match_here p (c # cs) of Some g \<Rightarrow> Some g | None \<Rightarrow> search_from p cs)"

text \<open>\<open>re.search\<close> without flags: \<open>^\<close> matches at the start of the string only.\<close>

fun re_search :: "regex \<Rightarrow> pystr \<Rightarrow> pystr list option" where
  "re_search (Anywhere p) s = search_from p s"
| "re_search (AtStart p) s = match_here p s"

text \<open>
  \<open>re.sub(p, repl, s)\<close> for a replacement without group references: the leftmost
  matches, not overlapping, are replaced; an empty match is replaced too and the scan
  moves on by one character.
\<close>

function re_sub :: "atom list \<Rightarrow> pystr \<Rightarrow> pystr \<Rightarrow> pystr" where
  "re_sub p repl [] = (case match_here p [] of Some g \<Rightarrow> repl | None \<Rightarrow> [])"
| "re_sub p repl (c # cs) =
     (case match_here p (c # cs) of
        None \<Rightarrow> c # re_sub p repl cs
      | Some g \<Rightarrow>
          (if length (concat g) = 0 then repl @ c # re_sub p repl cs
           else repl @ re_sub p repl (drop (length (concat g)) (c # cs))))"
  by pat_completeness auto
termination
  by (relation "measure (\<lambda>(p, repl, s). length s)") auto

section \<open>The text normalizer\<close>

definition clean_text :: "pystr \<Rightarrow> pystr" where
  "clean_text text0 =
     (let text1 = re_sub [Plus (chr sp)] [sp] text0;
          text2 = re_sub [AtLeast 3 (chr nl)] [nl, nl] text1;
          text3 = re_sub [One (chr nl), Star isspace, One (chr nl), Star isspace, Plus (chr nl)]
                    [nl, nl] text2;
          text4 = join [nl] (map strip (split_nl text3))
      in strip text4)"

section \<open>The selector classifier\<close>

definition xpath_patterns :: "regex list" where
  "xpath_patterns =
     [AtStart (lit ''/''),
      Anywhere (lit ''::''),
      Anywhere (lit ''('' @ [Star (not_chr (of_char CHR '')''))] @ lit '')''),
      Anywhere (lit ''['' @ [Star (not_chr (of_char CHR '']''))] @ lit '']''),
      Anywhere (lit ''last()''),
      Anywhere (lit ''position()''),
      Anywhere (lit ''contains(''),
      Anywhere (lit ''text()''),
      Anywhere (lit ''@'')]"

definition is_xpath :: "pystr \<Rightarrow> bool" where
  "is_xpath expression = list_ex (\<lambda>pattern. re_search pattern expression \<noteq> None) xpath_patterns"

section \<open>The process and its collaborators\<close>

text \<open>
  Exceptions are values.  The classes are the ones some \<open>except\<close> clause of the program
  names, and the ones that pass all of them; \<open>UnicodeDecodeError\<close> and
  \<open>UnicodeEncodeError\<close> are subclasses of \<open>UnicodeError\<close>, which here stands for an
  exception of that class proper.  An exception carries its message.
\<close>

datatype exn_class =
  RequestException | FileNotFoundError | UnicodeDecodeError | UnicodeEncodeError |
  UnicodeError | LookupError | XMLSyntaxError | OtherException

type_synonym exn = "exn_class \<times> pystr"
type_synonym 'a py = "exn + 'a"

record args =
  html :: pystr
  argument :: pystr
  body :: bool
  text_opt :: bool
  expression :: "pystr list"
  check_existence :: bool
  rawinput :: bool

text \<open>
  What XPath evaluation yields: a string (\<open>isinstance(el, str)\<close>) or an element, seen
  through the methods the program calls on it.  \<open>el_text_content\<close> is \<open>None\<close> when the
  element has no such method (\<open>hasattr\<close>).  Collecting the text of a node can raise
  (\<open>itertext\<close> on a comment does), so both ways of doing it return a result or an
  exception.
\<close>

record element =
  el_tostring :: pystr
  el_text_content :: "pystr py option"
  el_itertext :: "pystr list py"
  el_get :: "pystr \<Rightarrow> pystr option"

datatype match = Str pystr | Elem element

datatype parser = DefaultParser | HTMLParser

text \<open>
  The libraries and the operating system: \<open>argparse\<close>, \<open>requests\<close>, files and
  standard input, \<open>cssselect\<close>, the codec registry and \<open>lxml\<close>.  \<open>'d\<close> is the type of
  parsed documents.
\<close>

record 'd world =
  parse_args :: "pystr list \<Rightarrow> (pystr \<times> pystr \<times> int) + args"
  format_help :: pystr
  requests_get :: "pystr \<Rightarrow> bytes py"
  open_read :: "pystr \<Rightarrow> bytes py"
  stdin_read :: "bytes py"
  css_to_xpath :: "pystr \<Rightarrow> pystr py"
  decode :: "pystr \<Rightarrow> bytes \<Rightarrow> pystr py"
  fromstring :: "parser \<Rightarrow> bytes \<Rightarrow> 'd py"
  xpath :: "'d \<Rightarrow> pystr \<Rightarrow> match list py"

datatype event =
  ParseArgs | HttpGet pystr | OpenFile pystr | ReadStdin | CssToXPath pystr |
  Decode pystr | FromString parser bytes | EvalXPath pystr

record proc =
  stdout :: pystr
  stderr :: pystr
  events :: "event list"

definition proc0 :: proc where
  "proc0 = \<lparr>stdout = [], stderr = [], events = []\<rparr>"

text \<open>
  A statement runs on the process state and either goes on with a value or stops:
  \<open>sys.exit\<close>, or an exception nothing catches.
\<close>

datatype halt = SysExit int | Uncaught exn

type_synonym 'a act = "proc \<Rightarrow> proc \<times> (halt + 'a)"

definition ret :: "'a \<Rightarrow> 'a act" where
  "ret x = (\<lambda>p. (p, Inr x))"

definition bnd :: "'a act \<Rightarrow> ('a \<Rightarrow> 'b act) \<Rightarrow> 'b act" where
  "bnd m f = (\<lambda>p. case m p of (p', Inl h) \<Rightarrow> (p', Inl h) | (p', Inr x) \<Rightarrow> f x p')"

definition call :: "event \<Rightarrow> 'a \<Rightarrow> 'a act" where
  "call ev x = (\<lambda>p. (p\<lparr>events := events p @ [ev]\<rparr>, Inr x))"

definition write_stdout :: "pystr \<Rightarrow> unit act" where
  "write_stdout s = (\<lambda>p. (p\<lparr>stdout := stdout p @ s\<rparr>, Inr ()))"

definition print :: "pystr \<Rightarrow> unit act" where
  "print s = write_stdout (s @ [nl])"

definition sys_exit :: "int \<Rightarrow> 'a act" where
  "sys_exit n = (\<lambda>p. (p, Inl (SysExit n)))"

text \<open>\<open>sys.exit(message)\<close>: the message goes to standard error, the status is 1.\<close>

definition sys_exit_msg :: "pystr \<Rightarrow> 'a act" where
  "sys_exit_msg s = (\<lambda>p. (p\<lparr>stderr := stderr p @ s @ [nl]\<rparr>, Inl (SysExit 1)))"

definition raise :: "exn \<Rightarrow> 'a act" where
  "raise e = (\<lambda>p. (p, Inl (Uncaught e)))"

text \<open>
  The exit status of \<open>exit(main())\<close>: \<open>main\<close> returns \<open>None\<close>, which is status 0; an
  uncaught exception ends the interpreter with status 1.
\<close>

fun exit_code :: "halt + unit \<Rightarrow> int" where
  "exit_code (Inr u) = 0"
| "exit_code (Inl (SysExit n)) = n"
| "exit_code (Inl (Uncaught e)) = 1"

definition startswith :: "pystr \<Rightarrow> pystr \<Rightarrow> bool" where
  "startswith s pre \<longleftrightarrow> take (length pre) s = pre"

section \<open>Encodings\<close>

text \<open>
  \<open>s.encode('utf-8')\<close>.  A surrogate (U+D800 to U+DFFF) cannot be encoded and raises
  \<open>UnicodeEncodeError\<close>; numbers from 0x110000 on are not code points.
\<close>

definition utf8 :: "pychar \<Rightarrow> nat list option" where
  "utf8 c =
     (if c < 128 then Some [c]
      else if c < 2048 then Some [192 + c div 64, 128 + c mod 64]
      else if 55296 \<le> c \<and> c \<le> 57343 then None
      else if c < 65536 then Some [224 + c div 4096, 128 + c div 64 mod 64, 128 + c mod 64]
      else if c < 1114112 then
        Some [240 + c div 262144, 128 + c div 4096 mod 64, 128 + c div 64 mod 64, 128 + c mod 64]
      else None)"

fun encode_utf8 :: "pystr \<Rightarrow> bytes py" where
  "encode_utf8 [] = Inr []"
| "encode_utf8 (c # cs) =
     (case utf8 c of
        None \<Rightarrow> Inl (UnicodeEncodeError, str ''surrogates not allowed'')
      | Some bs \<Rightarrow>
          (case encode_utf8 cs of Inl e \<Rightarrow> Inl e | Inr r \<Rightarrow> Inr (map char_of bs @ r)))"

text \<open>\<open>b.decode('iso-8859-1')\<close>: every octet is the code point of its value.\<close>

definition decode_latin1 :: "bytes \<Rightarrow> pystr" where
  "decode_latin1 b = map of_char b"

text \<open>\<open>b.decode('ascii', errors='ignore')\<close>: the octets from 128 on are dropped.\<close>

definition decode_ascii_ignore :: "bytes \<Rightarrow> pystr" where
  "decode_ascii_ignore b = filter (\<lambda>c. c < 128) (map of_char b)"

text \<open>\<open>str.lower()\<close> on ASCII text.\<close>

definition lower :: "pystr \<Rightarrow> pystr" where
  "lower s = map (\<lambda>c. if 65 \<le> c \<and> c \<le> 90 then c + 32 else c) s"

section \<open>Charset detection\<close>

text \<open>
  The class \<open>[\w-]\<close> on ASCII text (the text searched is ASCII only): letters, digits,
  the underscore and the hyphen.
\<close>

definition word_or_dash :: "pychar \<Rightarrow> bool" where
  "word_or_dash c \<longleftrightarrow>
     (48 \<le> c \<and> c \<le> 57) \<or> (65 \<le> c \<and> c \<le> 90) \<or> (97 \<le> c \<and> c \<le> 122) \<or> c = 95 \<or> c = 45"

definition quote :: "pychar \<Rightarrow> bool" where
  "quote c \<longleftrightarrow> c = 34 \<or> c = 39"

definition meta_charset :: regex where
  "meta_charset =
     Anywhere (lit ''<meta'' @ [Plus (not_chr (of_char CHR ''>''))] @ lit ''charset='' @
       [Opt quote] @ [Plus word_or_dash])"

text \<open>The group of the pattern is its last atom.\<close>

definition detect_charset :: "bytes \<Rightarrow> pystr option" where
  "detect_charset html_bytes =
     (let head = lower (decode_ascii_ignore (take 1024 html_bytes))
      in case re_search meta_charset head of Some g \<Rightarrow> Some (last g) | None \<Rightarrow> None)"

section \<open>The program\<close>

definition default_expression :: pystr where
  "default_expression = str ''//body//text()[not(ancestor::script) and not(ancestor::style)]''"

definition convert_css_to_xpath :: "'d world \<Rightarrow> pystr \<Rightarrow> pystr act" where
  "convert_css_to_xpath w e =
     bnd (call (CssToXPath e) (css_to_xpath w e)) (\<lambda>r.
       case r of
         Inr x \<Rightarrow> ret x
       | Inl ex \<Rightarrow>
           bnd (print (str ''Error converting CSS selector to XPath: '' @ snd ex)) (\<lambda>u.
             sys_exit 1))"

text \<open>The list comprehension of line 160.\<close>

fun convert_all :: "'d world \<Rightarrow> pystr list \<Rightarrow> pystr list act" where
  "convert_all w [] = ret []"
| "convert_all w (e # es) =
     bnd (if is_xpath e then ret e else convert_css_to_xpath w e) (\<lambda>x.
       bnd (convert_all w es) (\<lambda>xs. ret (x # xs)))"

text \<open>Lines 122 to 153: the input is a URL, a file or standard input.\<close>

definition read_input :: "'d world \<Rightarrow> args \<Rightarrow> bytes act" where
  "read_input w a =
     bnd
       (if html a \<noteq> [] then
          (if startswith (html a) (str ''http://'') \<or> startswith (html a) (str ''https://'') then
             bnd (call (HttpGet (html a)) (requests_get w (html a))) (\<lambda>r.
               case r of
                 Inr content \<Rightarrow> ret content
               | Inl ex \<Rightarrow>
                   if fst ex = RequestException then
                     bnd (print (str ''Error downloading HTML: '' @ snd ex)) (\<lambda>u. sys_exit 1)
                   else raise ex)
           else
             bnd (call (OpenFile (html a)) (open_read w (html a))) (\<lambda>r.
               case r of
                 Inr content \<Rightarrow> ret content
               | Inl ex \<Rightarrow>
                   if fst ex = FileNotFoundError then
                     bnd (print (str ''Error: The file '' @ [39] @ html a @ [39] @
                                 str '' was not found.'')) (\<lambda>u. sys_exit 1)
                   else raise ex))
        else
          bnd (call ReadStdin (stdin_read w)) (\<lambda>r.
            case r of
              Inr inp \<Rightarrow>
                if inp = [] then
                  bnd (print (str ''Error: No input received from stdin'')) (\<lambda>u. sys_exit 1)
                else ret inp
            | Inl ex \<Rightarrow>
                bnd (print (str ''Error reading input: '' @ snd ex)) (\<lambda>u. sys_exit 1)))
       (\<lambda>inp.
          if inp = [] then
            bnd (print (str ''Error: Input is empty or invalid'')) (\<lambda>u. sys_exit 1)
          else ret inp)"

text \<open>
  Lines 178 to 204.  \<open>parse_failed\<close> is the outer \<open>except\<close> clause: a syntax error or a
  decoding error is reported, any other exception is not caught.
\<close>

definition parse_failed :: "exn \<Rightarrow> 'a act" where
  "parse_failed ex =
     (if fst ex = XMLSyntaxError \<or> fst ex = UnicodeDecodeError then
        bnd (print (str ''Error parsing HTML: '' @ snd ex)) (\<lambda>u. sys_exit 1)
      else raise ex)"

text \<open>Lines 180 to 186: the inner \<open>except\<close> clause names two classes.\<close>

definition apply_charset :: "'d world \<Rightarrow> bytes \<Rightarrow> bytes act" where
  "apply_charset w inp =
     (case detect_charset inp of
        None \<Rightarrow> ret inp
      | Some charset \<Rightarrow>
          bnd (call (Decode charset) (decode w charset inp)) (\<lambda>r.
            case (case r of Inl ex \<Rightarrow> Inl ex | Inr s \<Rightarrow> encode_utf8 s) of
              Inr b \<Rightarrow> ret b
            | Inl ex \<Rightarrow>
                if fst ex = UnicodeDecodeError \<or> fst ex = LookupError then ret inp
                else parse_failed ex))"

definition parse_with :: "'d world \<Rightarrow> args \<Rightarrow> bytes \<Rightarrow> 'd py act" where
  "parse_with w a inp =
     (let p = (if rawinput a then DefaultParser else HTMLParser)
      in call (FromString p inp) (fromstring w p inp))"

definition load_document :: "'d world \<Rightarrow> args \<Rightarrow> bytes \<Rightarrow> 'd act" where
  "load_document w a inp0 =
     bnd (apply_charset w inp0) (\<lambda>inp.
       bnd (parse_with w a inp) (\<lambda>r.
         case r of
           Inr document \<Rightarrow> ret document
         | Inl ex \<Rightarrow>
             if fst ex = UnicodeDecodeError then
               (case encode_utf8 (decode_latin1 inp) of
                  Inl ex' \<Rightarrow> parse_failed ex'
                | Inr inp' \<Rightarrow>
                    bnd (parse_with w a inp') (\<lambda>r'.
                      case r' of
                        Inr document \<Rightarrow> ret document
                      | Inl ex' \<Rightarrow> parse_failed ex'))
             else parse_failed ex))"

text \<open>
  Lines 216 to 238: one match is rendered, and appended unless it is \<open>None\<close>.  An
  exception raised while the text of an element is collected is caught nowhere.
\<close>

fun render :: "args \<Rightarrow> match \<Rightarrow> pystr option py" where
  "render a (Str s) = Inr (Some (if text_opt a then clean_text s else s))"
| "render a (Elem el) =
     (if text_opt a then
        (case (case el_text_content el of
                 Some r \<Rightarrow> r
               | None \<Rightarrow> (case el_itertext el of Inl ex \<Rightarrow> Inl ex | Inr ts \<Rightarrow> Inr (concat ts))) of
           Inl ex \<Rightarrow> Inl ex
         | Inr t \<Rightarrow> Inr (Some (clean_text t)))
      else if argument a = [] then Inr (Some (el_tostring el))
      else Inr (el_get el (argument a)))"

fun collect :: "args \<Rightarrow> match list \<Rightarrow> pystr list \<Rightarrow> pystr list py" where
  "collect a [] results = Inr results"
| "collect a (el # els) results =
     (case render a el of
        Inl ex \<Rightarrow> Inl ex
      | Inr None \<Rightarrow> collect a els results
      | Inr (Some t) \<Rightarrow> collect a els (results @ [strip t]))"

text \<open>Lines 208 to 238: the loop over the expressions.\<close>

fun run_expressions :: "'d world \<Rightarrow> args \<Rightarrow> 'd \<Rightarrow> pystr list \<Rightarrow> pystr list \<Rightarrow> pystr list act" where
  "run_expressions w a document [] results = ret results"
| "run_expressions w a document (e # es) results =
     bnd (call (EvalXPath e) (xpath w document e)) (\<lambda>r.
       case r of
         Inl ex \<Rightarrow> raise ex
       | Inr els \<Rightarrow>
           if check_existence a then sys_exit (if length els = 0 then 1 else 0)
           else (case collect a els results of
                   Inl ex \<Rightarrow> raise ex
                 | Inr results' \<Rightarrow> run_expressions w a document es results'))"

text \<open>Lines 241 to 244.\<close>

definition finalize :: "args \<Rightarrow> pystr list \<Rightarrow> pystr list" where
  "finalize a results =
     (if text_opt a \<and> results \<noteq> [] then
        (let final_text = clean_text (join [nl] results)
         in if final_text \<noteq> [] then [final_text] else [])
      else results)"

text \<open>Lines 247 to 257.\<close>

definition write_results :: "pystr list \<Rightarrow> pystr" where
  "write_results results = concat (map (\<lambda>result. result @ [nl]) results)"

text \<open>The envelope of \<open>-b\<close>: three lines before the results and two after.\<close>

definition envelope :: "pystr list \<Rightarrow> pystr" where
  "envelope results =
     str ''<!DOCTYPE html>'' @ [nl] @ str ''<html>'' @ [nl] @ str ''<body>'' @ [nl] @
     write_results results @ str ''</body>'' @ [nl] @ str ''</html>'' @ [nl]"

definition write_output :: "args \<Rightarrow> pystr list \<Rightarrow> unit act" where
  "write_output a results =
     (if body a \<and> \<not> text_opt a then write_stdout (envelope results)
      else write_stdout (write_results results))"

text \<open>Lines 206 to 257: what follows the parsing of the document.\<close>

definition evaluate :: "'d world \<Rightarrow> args \<Rightarrow> 'd \<Rightarrow> pystr list \<Rightarrow> unit act" where
  "evaluate w a document exprs =
     bnd (run_expressions w a document exprs []) (\<lambda>results. write_output a (finalize a results))"

text \<open>Lines 87 to 204: what precedes it, from the misuse guard to the parsed document.\<close>

definition startup :: "'d world \<Rightarrow> pystr list \<Rightarrow> (args \<times> 'd \<times> pystr list) act" where
  "startup w argv =
     (if contains (str ''-eb'') (join [sp] argv) then
        sys_exit_msg (str ''Error: The correct order is -be (body first, then expression). Please use -be instead of -eb.'')
      else
        bnd (call ParseArgs (parse_args w (drop 1 argv))) (\<lambda>r.
          case r of
            Inl (out, err, code) \<Rightarrow>
              (\<lambda>p. (p\<lparr>stdout := stdout p @ out, stderr := stderr p @ err\<rparr>, Inl (SysExit code)))
          | Inr a \<Rightarrow>
              if expression a = [] \<and> \<not> text_opt a then
                bnd (write_stdout (format_help w)) (\<lambda>u.
                  sys_exit_msg (str ''Error: you must provide at least one XPath query or CSS3 selector using the -e option, or use -t to extract text.''))
              else
                bnd (read_input w a) (\<lambda>inp.
                  bnd (if text_opt a \<and> expression a = [] then ret [default_expression]
                       else convert_all w (expression a)) (\<lambda>exprs.
                    bnd (load_document w a inp) (\<lambda>document.
                      ret (a, document, exprs))))))"

definition main :: "'d world \<Rightarrow> pystr list \<Rightarrow> proc \<times> (halt + unit)" where
  "main w argv =
     bnd (startup w argv) (\<lambda>(a, document, exprs). evaluate w a document exprs) proc0"

section \<open>The classification as the specification words it\<close>

text \<open>
  Line 160 converts an expression exactly when \<open>is_xpath\<close> is false: the two kinds of an
  expression.
\<close>

datatype kind = XPath | CSS

definition classify :: "pystr \<Rightarrow> kind" where
  "classify e = (if is_xpath e then XPath else CSS)"

text \<open>
  \<open>enclosed a b s\<close>: the text has an \<open>a\<close> with a \<open>b\<close> somewhere after it, that is, content
  between the two (possibly empty) that holds no \<open>b\<close>.
\<close>

fun enclosed :: "pychar \<Rightarrow> pychar \<Rightarrow> pystr \<Rightarrow> bool" where
  "enclosed a b [] \<longleftrightarrow> False"
| "enclosed a b (c # cs) \<longleftrightarrow> (c = a \<and> b \<in> set cs) \<or> enclosed a b cs"

text \<open>
  The patterns in the order the specification lists them: the expression starts with a
  slash, or contains an axis separator, parenthesized content, bracketed content, one of
  the four function names, or an attribute marker.
\<close>

definition spec_is_xpath :: "pystr \<Rightarrow> bool" where
  "spec_is_xpath e \<longleftrightarrow>
     startswith e (str ''/'') \<or> contains (str ''::'') e \<or>
     enclosed (of_char CHR ''('') (of_char CHR '')'') e \<or>
     enclosed (of_char CHR ''['') (of_char CHR '']'') e \<or>
     contains (str ''last()'') e \<or> contains (str ''position()'') e \<or>
     contains (str ''contains('') e \<or> contains (str ''text()'') e \<or>
     contains (str ''@'') e"

section \<open>Normal forms of a text\<close>

text \<open>
  Properties of a normalized text, used to show that the normalizer is idempotent: no
  two spaces in a row, and at most two newlines in the whitespace that starts at any
  position.
\<close>

definition no_double_space :: "pystr \<Rightarrow> bool" where
  "no_double_space s = successively (\<lambda>x y. \<not> (x = sp \<and> y = sp)) s"

definition leading_newlines :: "pystr \<Rightarrow> nat" where
  "leading_newlines s = length (filter (\<lambda>c. c = nl) (takeWhile isspace s))"

fun all_suffixes :: "(pystr \<Rightarrow> bool) \<Rightarrow> pystr \<Rightarrow> bool" where
  "all_suffixes P [] \<longleftrightarrow> P []"
| "all_suffixes P (c # cs) \<longleftrightarrow> P (c # cs) \<and> all_suffixes P cs"

definition few_newlines :: "pystr \<Rightarrow> bool" where
  "few_newlines s = all_suffixes (\<lambda>u. leading_newlines u \<le> 2) s"

abbreviation blank_lines :: "atom list" where
  "blank_lines \<equiv> [One (chr nl), Star isspace, One (chr nl), Star isspace, Plus (chr nl)]"

text \<open>
  \<open>trimmed s t\<close>: \<open>t\<close> is \<open>s\<close> without some of its whitespace other than newlines.
\<close>

inductive trimmed :: "pystr \<Rightarrow> pystr \<Rightarrow> bool" where
  trimmed_Nil: "trimmed [] []"
| trimmed_keep: "trimmed s t \<Longrightarrow> trimmed (c # s) (c # t)"
| trimmed_drop: "isspace c \<Longrightarrow> c \<noteq> nl \<Longrightarrow> trimmed s t \<Longrightarrow> trimmed (c # s) t"

section \<open>A sample environment\<close>

text \<open>
  A fragment of the codec registry: the codec \<open>undefined\<close> raises \<open>UnicodeError\<close> on
  every input, \<open>iso-8859-1\<close> decodes every input, an unknown name raises
  \<open>LookupError\<close>.
\<close>

definition codecs_decode :: "pystr \<Rightarrow> bytes \<Rightarrow> pystr py" where
  "codecs_decode charset b =
     (if charset = str ''undefined'' then Inl (UnicodeError, str ''undefined encoding'')
      else if charset = str ''iso-8859-1'' then Inr (decode_latin1 b)
      else Inl (LookupError, str ''unknown encoding: '' @ charset))"

definition sample_world :: "args \<Rightarrow> bytes \<Rightarrow> (pystr \<Rightarrow> match list) \<Rightarrow> unit world" where
  "sample_world a inp ev =
     \<lparr>parse_args = (\<lambda>argv. Inr a), format_help = [],
      requests_get = (\<lambda>url. Inl (RequestException, [])),
      open_read = (\<lambda>name. Inl (FileNotFoundError, [])),
      stdin_read = Inr inp,
      css_to_xpath = (\<lambda>e. Inl (OtherException, [])),
      decode = codecs_decode,
      fromstring = (\<lambda>p b. Inr ()),
      xpath = (\<lambda>d e. Inr (ev e))\<rparr>"

definition sample_args :: args where
  "sample_args =
     \<lparr>html = [], argument = [], body = False, text_opt = False, expression = [str ''//a'', str ''//p''],
      check_existence = False, rawinput = False\<rparr>"

text \<open>A document that names the codec \<open>undefined\<close> in a meta tag.\<close>

definition undefined_page :: bytes where
  "undefined_page = ''<meta charset='' @ [CHR 0x22] @ ''undefined'' @ [CHR 0x22] @ ''><p>x</p>''"

text \<open>A document with one paragraph and no anchor, as the sample environment sees it.\<close>

definition sample_page :: bytes where
  "sample_page = ''<p>x</p>''"

definition sample_xpath :: "pystr \<Rightarrow> match list" where
  "sample_xpath e = (if e = str ''//p'' then [Str (str ''x'')] else [])"

definition sample_argv :: "pystr list" where
  "sample_argv = [str ''scrape'', str ''-e'', str ''//a'', str ''-e'', str ''//p'']"

text \<open>
  An anchor element with the text \<open>t\<close>, with or without an \<open>href\<close> attribute, as
  \<open>lxml\<close> presents it: it has no method \<open>text_content\<close>.
\<close>

definition anchor :: "pystr option \<Rightarrow> element" where
  "anchor href =
     \<lparr>el_tostring =
        str ''<a'' @ (case href of None \<Rightarrow> [] | Some v \<Rightarrow> str '' href='' @ [34] @ v @ [34]) @
        str ''>t</a>'' @ [nl],
      el_text_content = None, el_itertext = Inr [str ''t''],
      el_get = (\<lambda>name. if name = str ''href'' then href else None)\<rparr>"

text \<open>
  A second environment, in which the parsed document is the text it was parsed from, so
  that one environment holds several documents.  \<open>argparse\<close> answers \<open>a\<close> to the
  tokens \<open>tokens\<close> and refuses every other command line; \<open>ev\<close> is what \<open>lxml\<close> selects in
  a document.
\<close>

definition cli_world :: "pystr list \<Rightarrow> args \<Rightarrow> bytes \<Rightarrow> (bytes \<Rightarrow> pystr \<Rightarrow> match list) \<Rightarrow> bytes world" where
  "cli_world tokens a inp ev =
     \<lparr>parse_args = (\<lambda>v. if v = tokens then Inr a else Inl ([], str ''usage: scrape'', 2)),
      format_help = str ''usage: scrape'',
      requests_get = (\<lambda>url. Inl (RequestException, [])),
      open_read = (\<lambda>name. Inl (FileNotFoundError, [])),
      stdin_read = Inr inp,
      css_to_xpath = (\<lambda>e. Inl (OtherException, [])),
      decode = codecs_decode,
      fromstring = (\<lambda>p b. Inr b),
      xpath = (\<lambda>d e. Inr (ev d e))\<rparr>"

text \<open>
  The documents of the examples: the one of the text-mode example; two anchors, the first
  with an empty \<open>href\<close>; two anchors, the first without \<open>href\<close>; one anchor with an
  empty \<open>href\<close>; one anchor without.
\<close>

definition hello_page :: bytes where
  "hello_page = ''<html><body><script>x</script><p>Hello  world</p></body></html>''"

definition links_page :: bytes where
  "links_page = ''<a href='' @ [CHR 0x22, CHR 0x22] @ ''>x</a><a href='' @ [CHR 0x22] @ ''u'' @ [CHR 0x22] @ ''>y</a>''"

definition anchors_page :: bytes where
  "anchors_page = ''<a>t</a><a href='' @ [CHR 0x22] @ '' u '' @ [CHR 0x22] @ ''>t</a>''"

definition empty_href_page :: bytes where
  "empty_href_page = ''<a href='' @ [CHR 0x22, CHR 0x22] @ ''>t</a>''"

definition no_href_page :: bytes where
  "no_href_page = ''<a>t</a>''"

text \<open>
  What the expressions of the examples select in these documents; in \<open>sample_page\<close>,
  which has no anchor, \<open>//a\<close> selects nothing.
\<close>

definition selected :: "bytes \<Rightarrow> pystr \<Rightarrow> match list" where
  "selected d e =
     (if d = hello_page \<and> e = str ''//body//text()[not(ancestor::script) and not(ancestor::style)]''
        then [Str (str ''Hello  world'')]
      else if d = links_page \<and> e = str ''//a/@href'' then [Str [], Str (str ''u'')]
      else if d = links_page \<and> e = str ''//a/text()'' then [Str (str ''x''), Str (str ''y'')]
      else if d = anchors_page \<and> e = str ''//a'' then [Elem (anchor None), Elem (anchor (Some (str '' u '')))]
      else if d = empty_href_page \<and> e = str ''//a'' then [Elem (anchor (Some []))]
      else if d = no_href_page \<and> e = str ''//a'' then [Elem (anchor None)]
      else [])"

text \<open>
  The command lines of the examples, each without the name of the program, and the
  arguments that \<open>argparse\<close> makes of them; \<open>args0\<close> holds the defaults.
\<close>

definition args0 :: args where
  "args0 =
     \<lparr>html = [], argument = [], body = False, text_opt = False, expression = [],
      check_existence = False, rawinput = False\<rparr>"

definition text_tokens :: "pystr list" where
  "text_tokens = [str ''-t'']"

definition text_args :: args where
  "text_args = args0\<lparr>text_opt := True\<rparr>"

definition links_tokens :: "pystr list" where
  "links_tokens = [str ''-t'', str ''-e'', str ''//a/@href'', str ''-e'', str ''//a/text()'']"

definition links_args :: args where
  "links_args = args0\<lparr>text_opt := True, expression := [str ''//a/@href'', str ''//a/text()'']\<rparr>"

definition href_tokens :: "pystr list" where
  "href_tokens = [str ''-a'', str ''href'', str ''-e'', str ''//a'']"

definition href_args :: args where
  "href_args = args0\<lparr>argument := str ''href'', expression := [str ''//a'']\<rparr>"

definition body_tokens :: "pystr list" where
  "body_tokens = [str ''-b'', str ''-e'', str ''//a'']"

definition body_args :: args where
  "body_args = args0\<lparr>body := True, expression := [str ''//a'']\<rparr>"

definition plain_tokens :: "pystr list" where
  "plain_tokens = [str ''-e'', str ''//a'']"

definition plain_args :: args where
  "plain_args = args0\<lparr>expression := [str ''//a'']\<rparr>"

section \<open>Basic facts\<close>

lemmas act_defs = bnd_def ret_def call_def write_stdout_def print_def sys_exit_def
  sys_exit_msg_def raise_def

text \<open>
  Equations that evaluate the matcher on a text given character by character; the
  recursive call is not under a binder.
\<close>

lemma match_One_Cons:
  "match_here (One c # as) (x # xs) =
     (if c x then map_option ((#) [x]) (match_here as xs) else None)"
  by (auto simp: counts_def split: option.splits)

lemma match_One_Nil: "match_here (One c # as) [] = None"
  by (simp add: counts_def)

lemma match_Opt_Cons:
  "match_here (Opt c # as) (x # xs) =
     (if c x then (case match_here as xs of
                     Some g \<Rightarrow> Some ([x] # g)
                   | None \<Rightarrow> map_option ((#) []) (match_here as (x # xs)))
      else map_option ((#) []) (match_here as (x # xs)))"
  by (auto simp: counts_def split: option.splits)

lemma match_Opt_Nil: "match_here (Opt c # as) [] = map_option ((#) []) (match_here as [])"
  by (auto simp: counts_def split: option.splits)

lemma match_unbounded_Cons:
  "hi a = None \<Longrightarrow>
   match_here (a # as) (x # xs) =
     first_some (\<lambda>k. map_option ((#) (take k (x # xs))) (match_here as (drop k (x # xs))))
       (rev [lo a ..< Suc (length (takeWhile (cls a) (x # xs)))])"
  by (simp add: counts_def del: upt_Suc)

lemma match_unbounded_Nil:
  "hi a = None \<Longrightarrow>
   match_here (a # as) [] = (if lo a = 0 then map_option ((#) []) (match_here as []) else None)"
  by (auto simp: counts_def split: option.splits)

lemma match_Star_Cons:
  "match_here (Star c # as) (x # xs) =
     first_some (\<lambda>k. map_option ((#) (take k (x # xs))) (match_here as (drop k (x # xs))))
       (rev [0 ..< Suc (length (takeWhile c (x # xs)))])"
  by (rule match_unbounded_Cons [of "Star c", simplified lo.simps cls.simps]) simp

lemma match_Plus_Cons:
  "match_here (Plus c # as) (x # xs) =
     first_some (\<lambda>k. map_option ((#) (take k (x # xs))) (match_here as (drop k (x # xs))))
       (rev [1 ..< Suc (length (takeWhile c (x # xs)))])"
  by (rule match_unbounded_Cons [of "Plus c", simplified lo.simps cls.simps]) simp

lemma match_AtLeast_Cons:
  "match_here (AtLeast n c # as) (x # xs) =
     first_some (\<lambda>k. map_option ((#) (take k (x # xs))) (match_here as (drop k (x # xs))))
       (rev [n ..< Suc (length (takeWhile c (x # xs)))])"
  by (rule match_unbounded_Cons [of "AtLeast n c", simplified lo.simps cls.simps]) simp

lemma match_Star_Nil: "match_here (Star c # as) [] = map_option ((#) []) (match_here as [])"
  by (auto simp: counts_def split: option.splits)

lemma match_Plus_Nil: "match_here (Plus c # as) [] = None"
  by (simp add: counts_def)

lemma match_AtLeast_Nil:
  "match_here (AtLeast n c # as) [] =
     (if n = 0 then map_option ((#) []) (match_here as []) else None)"
  by (auto simp: counts_def split: option.splits)

lemmas match_eval =
  match_One_Cons match_One_Nil match_Opt_Cons match_Opt_Nil
  match_Star_Cons match_Plus_Cons match_AtLeast_Cons
  match_Star_Nil match_Plus_Nil match_AtLeast_Nil

lemma convert_all_stdout:
  "convert_all w es p = (p', Inr xs) \<Longrightarrow> stdout p' = stdout p"
proof (induction es arbitrary: p p' xs)
  case Nil
  then show ?case by (simp add: ret_def)
next
  case (Cons e es)
  show ?case
  proof (cases "is_xpath e")
    case True
    with Cons.prems obtain ys where "convert_all w es p = (p', Inr ys)"
      by (auto simp: act_defs split: prod.splits sum.splits)
    then show ?thesis by (rule Cons.IH)
  next
    case False
    with Cons.prems obtain x ys where "css_to_xpath w e = Inr x"
      and "convert_all w es (p\<lparr>events := events p @ [CssToXPath e]\<rparr>) = (p', Inr ys)"
      by (auto simp: act_defs convert_css_to_xpath_def split: prod.splits sum.splits)
    then show ?thesis using Cons.IH by fastforce
  qed
qed

lemma read_input_stdout:
  "read_input w a p = (p', Inr inp) \<Longrightarrow> stdout p' = stdout p"
  by (auto simp: read_input_def act_defs split: if_splits sum.splits prod.splits)

lemma load_document_stdout:
  "load_document w a inp p = (p', Inr d) \<Longrightarrow> stdout p' = stdout p"
  by (auto simp: load_document_def apply_charset_def parse_with_def parse_failed_def act_defs Let_def
           split: if_splits sum.splits prod.splits option.splits)

lemma startup_stdout:
  assumes "startup w argv proc0 = (p, Inr x)"
  shows "stdout p = []"
proof -
  from assms obtain a p1 inp p2 exprs p3 d where
    r: "read_input w a p1 = (p2, Inr inp)" and p1: "stdout p1 = []"
    and c: "(if text_opt a \<and> expression a = [] then ret [default_expression]
             else convert_all w (expression a)) p2 = (p3, Inr exprs)"
    and l: "load_document w a inp p3 = (p, Inr d)"
    by (auto simp: startup_def act_defs proc0_def split: if_splits sum.splits prod.splits)
  from c have "stdout p3 = stdout p2"
    by (auto simp: ret_def dest: convert_all_stdout split: if_splits)
  with r l p1 show ?thesis
    by (simp add: read_input_stdout load_document_stdout)
qed


section \<open>Evaluation on the sample environment\<close>

lemmas eval_defs = str_def sp_def nl_def chr_def not_chr_def lit_def

lemma is_xpath_slash_a: "is_xpath (str ''//a'')"
  by (simp add: is_xpath_def xpath_patterns_def eval_defs match_eval del: match_here.simps(2))

lemma is_xpath_slash_p: "is_xpath (str ''//p'')"
  by (simp add: is_xpath_def xpath_patterns_def eval_defs match_eval del: match_here.simps(2))

lemma detect_charset_sample_page: "detect_charset sample_page = None"
  by (simp add: detect_charset_def meta_charset_def sample_page_def decode_ascii_ignore_def
        lower_def eval_defs match_eval del: match_here.simps(2))

lemma detect_charset_undefined_page: "detect_charset undefined_page = Some (str ''undefined'')"
  by (simp add: detect_charset_def meta_charset_def undefined_page_def decode_ascii_ignore_def
        lower_def quote_def word_or_dash_def eval_defs match_eval del: match_here.simps(2))

lemma no_eb_sample_argv: "\<not> contains (str ''-eb'') (join [sp] sample_argv)"
  by (simp add: sample_argv_def eval_defs)

section \<open>The misuse guard\<close>

text \<open>
  C8: whenever the command-line tokens, joined by spaces, contain \<open>-eb\<close>, the program
  writes its advice to standard error and stops with status 1; it has parsed no argument,
  read no input and evaluated no expression (the list of events is empty) and has written
  nothing to standard output.
\<close>
theorem misuse_guard:
  assumes "contains (str ''-eb'') (join [sp] argv)"
  shows "main w argv =
           (\<lparr>stdout = [],
             stderr = str ''Error: The correct order is -be (body first, then expression). Please use -be instead of -eb.'' @ [nl],
             events = []\<rparr>,
            Inl (SysExit 1))"
  using assms by (simp add: main_def startup_def act_defs proc0_def)

theorem misuse_guard_witness:
  "contains (str ''-eb'') (join [sp] [str ''scrape'', str ''-eb'', str ''//a'']) \<and>
   main (sample_world sample_args sample_page sample_xpath) [str ''scrape'', str ''-eb'', str ''//a''] =
     (\<lparr>stdout = [],
       stderr = str ''Error: The correct order is -be (body first, then expression). Please use -be instead of -eb.'' @ [nl],
       events = []\<rparr>,
      Inl (SysExit 1))"
proof -
  have h: "contains (str ''-eb'') (join [sp] [str ''scrape'', str ''-eb'', str ''//a''])"
    by (simp add: eval_defs)
  from h misuse_guard [OF h] show ?thesis by simp
qed

section \<open>The existence check\<close>

text \<open>
  C3: with \<open>check_existence\<close> set and a non-empty list of expressions, the evaluation
  stops at the first expression: the status is 1 when it has no match and 0 otherwise,
  the only evaluation is that of the first expression, and standard output is untouched,
  whatever the later expressions would match.
\<close>
theorem existence_check_first_expression:
  assumes "check_existence a" and "xpath w d e = Inr els"
  shows "evaluate w a d (e # es) p =
           (p\<lparr>events := events p @ [EvalXPath e]\<rparr>,
            Inl (SysExit (if length els = 0 then 1 else 0)))"
  using assms by (simp add: evaluate_def act_defs)

theorem existence_check_first_expression_witness:
  "check_existence (sample_args\<lparr>check_existence := True\<rparr>) \<and>
   xpath (sample_world sample_args sample_page sample_xpath) () (str ''//a'') = Inr [] \<and>
   xpath (sample_world sample_args sample_page sample_xpath) () (str ''//p'') = Inr [Str (str ''x'')] \<and>
   evaluate (sample_world sample_args sample_page sample_xpath) (sample_args\<lparr>check_existence := True\<rparr>) ()
       [str ''//a'', str ''//p''] proc0 =
     (\<lparr>stdout = [], stderr = [], events = [EvalXPath (str ''//a'')]\<rparr>, Inl (SysExit 1))"
proof -
  have x: "xpath (sample_world sample_args sample_page sample_xpath) () (str ''//a'') = Inr []"
    by (simp add: sample_world_def sample_xpath_def str_def)
  have y: "xpath (sample_world sample_args sample_page sample_xpath) () (str ''//p'') = Inr [Str (str ''x'')]"
    by (simp add: sample_world_def sample_xpath_def)
  have c: "check_existence (sample_args\<lparr>check_existence := True\<rparr>)" by simp
  from existence_check_first_expression [OF c x, of "[str ''//p'']" proc0] x y
  show ?thesis by (simp add: proc0_def)
qed

lemmas clean_eval = clean_text_def strip_def isspace_def eval_defs match_eval

lemma clean_text_Nil: "clean_text [] = []"
  by (simp add: clean_eval del: match_here.simps(2))

lemma detect_charset_hello_page: "detect_charset hello_page = None"
  by (simp add: detect_charset_def meta_charset_def hello_page_def decode_ascii_ignore_def
        lower_def eval_defs match_eval del: match_here.simps(2))

lemma clean_text_hello: "clean_text (str ''Hello  world'') = str ''Hello world''"
  by (simp add: clean_eval del: match_here.simps(2))

lemma clean_text_hello_again: "clean_text (str ''Hello world'') = str ''Hello world''"
  by (simp add: clean_eval del: match_here.simps(2))

lemma strip_hello: "strip (str ''Hello world'') = str ''Hello world''"
  by (simp add: strip_def isspace_def str_def)

section \<open>The loop over the expressions\<close>

lemma main_after_startup:
  "startup w argv proc0 = (p, Inr (a, d, exprs)) \<Longrightarrow> main w argv = evaluate w a d exprs p"
  by (simp add: main_def bnd_def)

lemma collect_append:
  "collect a (xs @ ys) rs =
     (case collect a xs rs of Inl ex \<Rightarrow> Inl ex | Inr rs' \<Rightarrow> collect a ys rs')"
  by (induction xs arbitrary: rs) (simp_all split: sum.splits option.splits)

lemma collect_attribute:
  "\<not> text_opt a \<Longrightarrow> argument a \<noteq> [] \<Longrightarrow>
   collect a ms rs =
     Inr (rs @ List.map_filter (\<lambda>m. case m of Str s \<Rightarrow> Some (strip s)
                                        | Elem el \<Rightarrow> map_option strip (el_get el (argument a))) ms)"
proof (induction ms arbitrary: rs)
  case Nil
  then show ?case by (simp add: List.map_filter_simps)
next
  case (Cons m ms)
  then show ?case
    by (cases m) (simp_all add: List.map_filter_simps split: option.splits)
qed

lemma run_expressions_all:
  assumes "\<not> check_existence a"
  shows "\<forall>e\<in>set exprs. xpath w d e = Inr (ms e) \<Longrightarrow>
         collect a (concat (map ms exprs)) rs = Inr rs' \<Longrightarrow>
         run_expressions w a d exprs rs p =
           (p\<lparr>events := events p @ map EvalXPath exprs\<rparr>, Inr rs')"
proof (induction exprs arbitrary: rs p)
  case Nil
  then show ?case by (simp add: ret_def)
next
  case (Cons e es)
  from Cons.prems(2) obtain r1 where r1: "collect a (ms e) rs = Inr r1"
    and r2: "collect a (concat (map ms es)) r1 = Inr rs'"
    by (auto simp: collect_append split: sum.splits)
  from Cons.prems(1) have x: "xpath w d e = Inr (ms e)"
    and xs: "\<forall>e\<in>set es. xpath w d e = Inr (ms e)"
    by simp_all
  from Cons.IH [OF xs r2] show ?case
    using assms x r1 by (simp add: bnd_def call_def)
qed

lemma run_expressions_stdout:
  "run_expressions w a d exprs rs p = (p', r) \<Longrightarrow> stdout p' = stdout p"
proof (induction exprs arbitrary: rs p)
  case Nil
  then show ?case by (auto simp: ret_def)
next
  case (Cons e es)
  show ?case
  proof (cases "xpath w d e")
    case (Inl ex)
    with Cons.prems show ?thesis by (auto simp: act_defs)
  next
    case (Inr els)
    show ?thesis
    proof (cases "check_existence a")
      case True
      with Inr Cons.prems show ?thesis by (auto simp: act_defs)
    next
      case False
      show ?thesis
      proof (cases "collect a els rs")
        case (Inl ex)
        with Inr False Cons.prems show ?thesis by (auto simp: act_defs)
      next
        case r: (Inr rs1)
        with Inr False Cons.prems
        have "run_expressions w a d es rs1 (p\<lparr>events := events p @ [EvalXPath e]\<rparr>) = (p', r)"
          by (simp add: act_defs)
        from Cons.IH [OF this] show ?thesis by simp
      qed
    qed
  qed
qed

lemma convert_all_xpath: "\<forall>e\<in>set es. is_xpath e \<Longrightarrow> convert_all w es = ret es"
  by (induction es) (simp_all add: bnd_def ret_def)

lemma write_results_extra: "write_results (xs @ [[]] @ ys) \<noteq> write_results (xs @ ys)"
proof
  assume "write_results (xs @ [[]] @ ys) = write_results (xs @ ys)"
  then have "length (write_results (xs @ [[]] @ ys)) = length (write_results (xs @ ys))"
    by simp
  then show False by (simp add: write_results_def)
qed

lemma envelope_extra: "envelope (xs @ [[]] @ ys) \<noteq> envelope (xs @ ys)"
  unfolding envelope_def using write_results_extra [of xs ys] by simp

text \<open>
  An exception raised while the text of a matched node is collected ends the program: no
  handler is in place.
\<close>

lemma text_mode_itertext_raises:
  assumes "text_opt a" and "\<not> check_existence a"
    and "xpath w d e = Inr (Elem el # ms)"
    and "el_text_content el = None" and "el_itertext el = Inl ex"
  shows "evaluate w a d (e # es) p =
           (p\<lparr>events := events p @ [EvalXPath e]\<rparr>, Inl (Uncaught ex))"
  using assms by (simp add: evaluate_def act_defs)

lemma startup_parse_args:
  assumes "startup w argv proc0 = (p, Inr (a, d, exprs))"
  shows "\<not> contains (str ''-eb'') (join [sp] argv) \<and> parse_args w (drop 1 argv) = Inr a"
proof -
  from assms have g: "\<not> contains (str ''-eb'') (join [sp] argv)"
    by (auto simp: startup_def sys_exit_msg_def)
  show ?thesis
  proof (cases "parse_args w (drop 1 argv)")
    case (Inl x)
    with assms g show ?thesis
      by (cases x) (simp add: startup_def bnd_def call_def)
  next
    case (Inr a')
    with assms g have "a' = a"
      by (auto simp: startup_def act_defs split: if_splits sum.splits prod.splits)
    with Inr g show ?thesis by simp
  qed
qed

section \<open>Evaluation on the second sample environment\<close>

lemma startup_cli:
  assumes "\<not> contains (str ''-eb'') (join [sp] (prog # tokens))"
    and "html a = []" and "inp \<noteq> []" and "detect_charset inp = None"
    and "expression a \<noteq> []" and "\<forall>e\<in>set (expression a). is_xpath e"
  shows "startup (cli_world tokens a inp ev) (prog # tokens) proc0 =
           (\<lparr>stdout = [], stderr = [],
             events = [ParseArgs, ReadStdin,
                       FromString (if rawinput a then DefaultParser else HTMLParser) inp]\<rparr>,
            Inr (a, inp, expression a))"
  using assms
  by (simp add: startup_def cli_world_def act_defs proc0_def read_input_def convert_all_xpath
        load_document_def apply_charset_def parse_with_def)

lemma is_xpath_href: "is_xpath (str ''//a/@href'')"
  by (simp add: is_xpath_def xpath_patterns_def eval_defs match_eval del: match_here.simps(2))

lemma is_xpath_text: "is_xpath (str ''//a/text()'')"
  by (simp add: is_xpath_def xpath_patterns_def eval_defs match_eval del: match_here.simps(2))

lemma detect_charset_links_page: "detect_charset links_page = None"
  by (simp add: detect_charset_def meta_charset_def links_page_def decode_ascii_ignore_def
        lower_def eval_defs match_eval del: match_here.simps(2))

lemma detect_charset_anchors_page: "detect_charset anchors_page = None"
  by (simp add: detect_charset_def meta_charset_def anchors_page_def decode_ascii_ignore_def
        lower_def eval_defs match_eval del: match_here.simps(2))

lemma detect_charset_empty_href_page: "detect_charset empty_href_page = None"
  by (simp add: detect_charset_def meta_charset_def empty_href_page_def decode_ascii_ignore_def
        lower_def eval_defs match_eval del: match_here.simps(2))

lemma detect_charset_no_href_page: "detect_charset no_href_page = None"
  by (simp add: detect_charset_def meta_charset_def no_href_page_def decode_ascii_ignore_def
        lower_def eval_defs match_eval del: match_here.simps(2))

lemma startup_links:
  "startup (cli_world links_tokens links_args links_page selected) (str ''scrape'' # links_tokens) proc0 =
     (\<lparr>stdout = [], stderr = [], events = [ParseArgs, ReadStdin, FromString HTMLParser links_page]\<rparr>,
      Inr (links_args, links_page, [str ''//a/@href'', str ''//a/text()'']))"
proof -
  have "\<not> contains (str ''-eb'') (join [sp] (str ''scrape'' # links_tokens))"
    by (simp add: links_tokens_def eval_defs)
  moreover have "links_page \<noteq> []" by (simp add: links_page_def)
  ultimately show ?thesis
    using startup_cli [of "str ''scrape''" links_tokens links_args links_page selected]
    by (simp add: links_args_def args0_def detect_charset_links_page is_xpath_href is_xpath_text)
qed

lemma startup_href:
  assumes "inp = anchors_page \<or> inp = empty_href_page \<or> inp = no_href_page"
  shows "startup (cli_world href_tokens href_args inp selected) (str ''scrape'' # href_tokens) proc0 =
     (\<lparr>stdout = [], stderr = [], events = [ParseArgs, ReadStdin, FromString HTMLParser inp]\<rparr>,
      Inr (href_args, inp, [str ''//a'']))"
proof -
  have "\<not> contains (str ''-eb'') (join [sp] (str ''scrape'' # href_tokens))"
    by (simp add: href_tokens_def eval_defs)
  moreover from assms have "inp \<noteq> []"
    by (auto simp: anchors_page_def empty_href_page_def no_href_page_def)
  moreover from assms have "detect_charset inp = None"
    by (auto simp: detect_charset_anchors_page detect_charset_empty_href_page
          detect_charset_no_href_page)
  ultimately show ?thesis
    using startup_cli [of "str ''scrape''" href_tokens href_args inp selected]
    by (simp add: href_args_def args0_def is_xpath_slash_a)
qed

lemma startup_body:
  "startup (cli_world body_tokens body_args sample_page selected) (str ''scrape'' # body_tokens) proc0 =
     (\<lparr>stdout = [], stderr = [], events = [ParseArgs, ReadStdin, FromString HTMLParser sample_page]\<rparr>,
      Inr (body_args, sample_page, [str ''//a'']))"
proof -
  have "\<not> contains (str ''-eb'') (join [sp] (str ''scrape'' # body_tokens))"
    by (simp add: body_tokens_def eval_defs)
  moreover have "sample_page \<noteq> []" by (simp add: sample_page_def)
  ultimately show ?thesis
    using startup_cli [of "str ''scrape''" body_tokens body_args sample_page selected]
    by (simp add: body_args_def args0_def detect_charset_sample_page is_xpath_slash_a)
qed

lemma startup_plain:
  "startup (cli_world plain_tokens plain_args sample_page selected) (str ''scrape'' # plain_tokens) proc0 =
     (\<lparr>stdout = [], stderr = [], events = [ParseArgs, ReadStdin, FromString HTMLParser sample_page]\<rparr>,
      Inr (plain_args, sample_page, [str ''//a'']))"
proof -
  have "\<not> contains (str ''-eb'') (join [sp] (str ''scrape'' # plain_tokens))"
    by (simp add: plain_tokens_def eval_defs)
  moreover have "sample_page \<noteq> []" by (simp add: sample_page_def)
  ultimately show ?thesis
    using startup_cli [of "str ''scrape''" plain_tokens plain_args sample_page selected]
    by (simp add: plain_args_def args0_def detect_charset_sample_page is_xpath_slash_a)
qed

lemma startup_text:
  "startup (cli_world text_tokens text_args hello_page selected) (str ''scrape'' # text_tokens) proc0 =
     (\<lparr>stdout = [], stderr = [], events = [ParseArgs, ReadStdin, FromString HTMLParser hello_page]\<rparr>,
      Inr (text_args, hello_page, [str ''//body//text()[not(ancestor::script) and not(ancestor::style)]'']))"
proof -
  have "\<not> contains (str ''-eb'') (join [sp] (str ''scrape'' # text_tokens))"
    by (simp add: text_tokens_def eval_defs)
  moreover have "hello_page \<noteq> []" by (simp add: hello_page_def)
  ultimately show ?thesis
    by (simp add: startup_def cli_world_def act_defs proc0_def read_input_def
          load_document_def apply_charset_def parse_with_def text_args_def args0_def
          detect_charset_hello_page default_expression_def)
qed

lemma selected_links_href: "selected links_page (str ''//a/@href'') = [Str [], Str (str ''u'')]"
  by (simp add: selected_def links_page_def hello_page_def str_def)

lemma selected_links_text: "selected links_page (str ''//a/text()'') = [Str (str ''x''), Str (str ''y'')]"
  by (simp add: selected_def links_page_def hello_page_def str_def)

lemma selected_anchors:
  "selected anchors_page (str ''//a'') = [Elem (anchor None), Elem (anchor (Some (str '' u '')))]"
  by (simp add: selected_def anchors_page_def links_page_def hello_page_def str_def)

lemma selected_empty_href: "selected empty_href_page (str ''//a'') = [Elem (anchor (Some []))]"
  by (simp add: selected_def empty_href_page_def anchors_page_def links_page_def hello_page_def str_def)

lemma selected_no_href: "selected no_href_page (str ''//a'') = [Elem (anchor None)]"
  by (simp add: selected_def no_href_page_def empty_href_page_def anchors_page_def links_page_def
        hello_page_def str_def)

lemma selected_sample: "selected sample_page (str ''//a'') = []"
  by (simp add: selected_def sample_page_def no_href_page_def empty_href_page_def anchors_page_def
        links_page_def hello_page_def str_def)

lemma selected_hello:
  "selected hello_page (str ''//body//text()[not(ancestor::script) and not(ancestor::style)]'') =
     [Str (str ''Hello  world'')]"
  by (simp add: selected_def)

section \<open>Text mode\<close>

text \<open>
  C5: in text mode, when the loop over the expressions ends with the result set
  \<open>results\<close>, the program joins the results with newlines, normalizes the joined text
  once, and writes that single text followed by a newline, or nothing at all when the
  text is empty after normalization.  Nothing else is written: the blocks of the
  expressions are not written one by one.
\<close>
theorem text_mode_single_result:
  assumes "text_opt a"
    and "run_expressions w a d exprs [] p = (p', Inr results)"
  shows "evaluate w a d exprs p =
           (p'\<lparr>stdout := stdout p @ (if clean_text (join [nl] results) = [] then []
                                      else clean_text (join [nl] results) @ [nl])\<rparr>,
            Inr ())"
proof -
  from assms(2) have "stdout p' = stdout p" by (rule run_expressions_stdout)
  with assms show ?thesis
    by (simp add: evaluate_def bnd_def finalize_def write_output_def write_stdout_def
          write_results_def clean_text_Nil)
qed

text \<open>
  The command line \<open>scrape -t -e //a/@href -e //a/text()\<close> on a document with two
  anchors, the first with an empty \<open>href\<close>: the loop ends with four results, the first
  of them empty, and the output has three lines.
\<close>

theorem text_mode_single_result_witness:
  "text_opt links_args \<and>
   run_expressions (cli_world links_tokens links_args links_page selected) links_args links_page
       [str ''//a/@href'', str ''//a/text()''] []
       \<lparr>stdout = [], stderr = [], events = [ParseArgs, ReadStdin, FromString HTMLParser links_page]\<rparr> =
     (\<lparr>stdout = [], stderr = [],
       events = [ParseArgs, ReadStdin, FromString HTMLParser links_page,
                 EvalXPath (str ''//a/@href''), EvalXPath (str ''//a/text()'')]\<rparr>,
      Inr [[], str ''u'', str ''x'', str ''y'']) \<and>
   main (cli_world links_tokens links_args links_page selected) (str ''scrape'' # links_tokens) =
     (\<lparr>stdout = str ''u'' @ [nl] @ str ''x'' @ [nl] @ str ''y'' @ [nl], stderr = [],
       events = [ParseArgs, ReadStdin, FromString HTMLParser links_page,
                 EvalXPath (str ''//a/@href''), EvalXPath (str ''//a/text()'')]\<rparr>,
      Inr ())"
proof -
  let ?w = "cli_world links_tokens links_args links_page selected"
  let ?p = "\<lparr>stdout = [], stderr = [], events = [ParseArgs, ReadStdin, FromString HTMLParser links_page]\<rparr>"
  have t: "text_opt links_args" by (simp add: links_args_def)
  have c0: "clean_text (str ''u'') = str ''u''" "clean_text (str ''x'') = str ''x''"
    "clean_text (str ''y'') = str ''y''"
    by (simp_all add: clean_eval del: match_here.simps(2))
  have s0: "strip (str ''u'') = str ''u''" "strip (str ''x'') = str ''x''"
    "strip (str ''y'') = str ''y''" "strip [] = []"
    by (simp_all add: strip_def isspace_def str_def)
  have r: "run_expressions ?w links_args links_page [str ''//a/@href'', str ''//a/text()''] [] ?p =
     (\<lparr>stdout = [], stderr = [],
       events = [ParseArgs, ReadStdin, FromString HTMLParser links_page,
                 EvalXPath (str ''//a/@href''), EvalXPath (str ''//a/text()'')]\<rparr>,
      Inr [[], str ''u'', str ''x'', str ''y''])"
    by (simp add: act_defs cli_world_def selected_links_href selected_links_text t
          clean_text_Nil c0 s0)
       (simp add: links_args_def args0_def)
  have c: "clean_text (join [nl] [[], str ''u'', str ''x'', str ''y'']) =
      str ''u'' @ [nl] @ str ''x'' @ [nl] @ str ''y''"
    by (simp add: clean_eval del: match_here.simps(2))
  have n: "str ''u'' @ [nl] @ str ''x'' @ [nl] @ str ''y'' \<noteq> []" by (simp add: str_def)
  from text_mode_single_result [OF t r] t r c n startup_links show ?thesis
    by (simp add: main_after_startup)
qed

section \<open>Attribute mode\<close>

text \<open>
  C6: in attribute mode (an attribute name is given, text mode and the existence check
  are off) the output holds, for the matches of all expressions in order, the value of
  the attribute of each matched element that carries it, stripped of leading and trailing
  whitespace; a matched element that lacks the attribute adds no line, not an empty one.
  (A match that is a string adds the string, stripped.)
\<close>
theorem attribute_mode_absent_attribute:
  assumes "\<not> text_opt a" and "argument a \<noteq> []" and "\<not> check_existence a"
    and "\<forall>e\<in>set exprs. xpath w d e = Inr (ms e)"
  shows "evaluate w a d exprs p =
           (p\<lparr>events := events p @ map EvalXPath exprs,
              stdout := stdout p @
                (let rs = List.map_filter
                            (\<lambda>m. case m of Str s \<Rightarrow> Some (strip s)
                                  | Elem el \<Rightarrow> map_option strip (el_get el (argument a)))
                            (concat (map ms exprs))
                 in if body a then envelope rs else write_results rs)\<rparr>,
            Inr ())"
proof -
  let ?rs = "List.map_filter
               (\<lambda>m. case m of Str s \<Rightarrow> Some (strip s)
                     | Elem el \<Rightarrow> map_option strip (el_get el (argument a)))
               (concat (map ms exprs))"
  from assms(1,2) have "collect a (concat (map ms exprs)) [] = Inr ?rs"
    by (simp add: collect_attribute)
  with assms(3,4) have "run_expressions w a d exprs [] p =
      (p\<lparr>events := events p @ map EvalXPath exprs\<rparr>, Inr ?rs)"
    by (rule run_expressions_all)
  with assms(1) show ?thesis
    by (simp add: evaluate_def bnd_def finalize_def write_output_def write_stdout_def)
qed

text \<open>
  The command line \<open>scrape -a href -e //a\<close> on a document with two anchors, the first
  without \<open>href\<close>, the second with the value \<open>u\<close> between two spaces: the output is
  the one line \<open>u\<close>.
\<close>

theorem attribute_mode_absent_attribute_witness:
  "\<not> text_opt href_args \<and> argument href_args \<noteq> [] \<and> \<not> check_existence href_args \<and>
   xpath (cli_world href_tokens href_args anchors_page selected) anchors_page (str ''//a'') =
     Inr [Elem (anchor None), Elem (anchor (Some (str '' u '')))] \<and>
   el_get (anchor None) (argument href_args) = None \<and>
   el_get (anchor (Some (str '' u ''))) (argument href_args) = Some (str '' u '') \<and>
   main (cli_world href_tokens href_args anchors_page selected) (str ''scrape'' # href_tokens) =
     (\<lparr>stdout = str ''u'' @ [nl], stderr = [],
       events = [ParseArgs, ReadStdin, FromString HTMLParser anchors_page, EvalXPath (str ''//a'')]\<rparr>,
      Inr ())"
proof -
  let ?w = "cli_world href_tokens href_args anchors_page selected"
  let ?p = "\<lparr>stdout = [], stderr = [], events = [ParseArgs, ReadStdin, FromString HTMLParser anchors_page]\<rparr>"
  have t: "\<not> text_opt href_args" and c: "\<not> check_existence href_args"
    and b: "\<not> body href_args" and g: "argument href_args = str ''href''"
    by (simp_all add: href_args_def args0_def)
  have n: "argument href_args \<noteq> []" by (simp add: g str_def)
  have x: "\<forall>e\<in>set [str ''//a'']. xpath ?w anchors_page e = Inr (selected anchors_page e)"
    by (simp add: cli_world_def)
  have s: "strip (str '' u '') = str ''u''"
    by (simp add: strip_def isspace_def str_def)
  have m: "main ?w (str ''scrape'' # href_tokens) =
      evaluate ?w href_args anchors_page [str ''//a''] ?p"
    using startup_href [of anchors_page] by (simp add: main_after_startup)
  from attribute_mode_absent_attribute [OF t n c x, of ?p] x t n c b show ?thesis
    by (simp add: m selected_anchors List.map_filter_simps anchor_def g s write_results_def)
qed

text \<open>
  C9: in attribute mode, for two documents in which an expression matches the same
  elements but for one, which carries the attribute with the empty string as its value in
  the first document and lacks it in the second: the output on the first document has
  one entry more, an empty line at the place of that element; the two outputs differ.
\<close>
theorem attribute_mode_empty_value:
  assumes "\<not> text_opt a" and "argument a \<noteq> []" and "\<not> check_existence a"
    and "el_get el (argument a) = Some []" and "el_get el' (argument a) = None"
    and "xpath w d e = Inr (map Elem (els1 @ [el] @ els2))"
    and "xpath w d' e = Inr (map Elem (els1 @ [el'] @ els2))"
  shows "(let entries = (\<lambda>els. map strip (List.map_filter (\<lambda>x. el_get x (argument a)) els));
              written = (\<lambda>rs. if body a then envelope rs else write_results rs)
          in evaluate w a d [e] p =
               (p\<lparr>events := events p @ [EvalXPath e],
                  stdout := stdout p @ written (entries els1 @ [[]] @ entries els2)\<rparr>, Inr ()) \<and>
             evaluate w a d' [e] p =
               (p\<lparr>events := events p @ [EvalXPath e],
                  stdout := stdout p @ written (entries els1 @ entries els2)\<rparr>, Inr ())) \<and>
         stdout (fst (evaluate w a d [e] p)) \<noteq> stdout (fst (evaluate w a d' [e] p))"
proof -
  let ?f = "\<lambda>m. case m of Str s \<Rightarrow> Some (strip s)
                 | Elem el \<Rightarrow> map_option strip (el_get el (argument a))"
  let ?entries = "\<lambda>els. map strip (List.map_filter (\<lambda>x. el_get x (argument a)) els)"
  let ?written = "\<lambda>rs. if body a then envelope rs else write_results rs"
  have v: "List.map_filter ?f (map Elem els) = ?entries els" for els
    by (induction els) (simp_all add: List.map_filter_simps split: option.splits)
  have c: "collect a (map Elem els) [] = Inr (?entries els)" for els
    using assms(1,2) v [of els] by (simp add: collect_attribute)
  have s: "strip [] = []" by (simp add: strip_def)
  have v1: "?entries (els1 @ [el] @ els2) = ?entries els1 @ [[]] @ ?entries els2"
    using assms(4) by (simp add: List.map_filter_def s)
  have v2: "?entries (els1 @ [el'] @ els2) = ?entries els1 @ ?entries els2"
    using assms(5) by (simp add: List.map_filter_def)
  have r: "xpath w x e = Inr (map Elem els) \<Longrightarrow>
           evaluate w a x [e] p =
             (p\<lparr>events := events p @ [EvalXPath e], stdout := stdout p @ ?written (?entries els)\<rparr>, Inr ())"
    for x els
    using assms(1,3) c [of els]
    by (simp add: evaluate_def act_defs finalize_def write_output_def)
  have e1: "evaluate w a d [e] p =
      (p\<lparr>events := events p @ [EvalXPath e],
         stdout := stdout p @ ?written (?entries els1 @ [[]] @ ?entries els2)\<rparr>, Inr ())"
    using r [OF assms(6)] v1 by simp
  have e2: "evaluate w a d' [e] p =
      (p\<lparr>events := events p @ [EvalXPath e],
         stdout := stdout p @ ?written (?entries els1 @ ?entries els2)\<rparr>, Inr ())"
    using r [OF assms(7)] v2 by simp
  have "?written (?entries els1 @ [[]] @ ?entries els2) \<noteq> ?written (?entries els1 @ ?entries els2)"
    using write_results_extra [of "?entries els1" "?entries els2"]
      envelope_extra [of "?entries els1" "?entries els2"]
    by (cases "body a") simp_all
  with e1 e2 show ?thesis by (simp add: Let_def)
qed

text \<open>
  The command line \<open>scrape -a href -e //a\<close> on a document with one anchor: with an empty
  \<open>href\<close> the output is one empty line, without \<open>href\<close> it is empty.
\<close>

theorem attribute_mode_empty_value_witness:
  "\<not> text_opt href_args \<and> argument href_args \<noteq> [] \<and> \<not> check_existence href_args \<and>
   el_get (anchor (Some [])) (argument href_args) = Some [] \<and>
   el_get (anchor None) (argument href_args) = None \<and>
   xpath (cli_world href_tokens href_args empty_href_page selected) empty_href_page (str ''//a'') =
     Inr (map Elem ([] @ [anchor (Some [])] @ [])) \<and>
   xpath (cli_world href_tokens href_args empty_href_page selected) no_href_page (str ''//a'') =
     Inr (map Elem ([] @ [anchor None] @ [])) \<and>
   main (cli_world href_tokens href_args empty_href_page selected) (str ''scrape'' # href_tokens) =
     (\<lparr>stdout = [nl], stderr = [],
       events = [ParseArgs, ReadStdin, FromString HTMLParser empty_href_page, EvalXPath (str ''//a'')]\<rparr>,
      Inr ()) \<and>
   evaluate (cli_world href_tokens href_args empty_href_page selected) href_args no_href_page [str ''//a'']
       \<lparr>stdout = [], stderr = [], events = [ParseArgs, ReadStdin, FromString HTMLParser empty_href_page]\<rparr> =
     (\<lparr>stdout = [], stderr = [],
       events = [ParseArgs, ReadStdin, FromString HTMLParser empty_href_page, EvalXPath (str ''//a'')]\<rparr>,
      Inr ())"
proof -
  let ?w = "cli_world href_tokens href_args empty_href_page selected"
  let ?p = "\<lparr>stdout = [], stderr = [], events = [ParseArgs, ReadStdin, FromString HTMLParser empty_href_page]\<rparr>"
  have t: "\<not> text_opt href_args" and c: "\<not> check_existence href_args"
    and b: "\<not> body href_args" and g: "argument href_args = str ''href''"
    by (simp_all add: href_args_def args0_def)
  have n: "argument href_args \<noteq> []" by (simp add: g str_def)
  have g1: "el_get (anchor (Some [])) (argument href_args) = Some []"
    and g2: "el_get (anchor None) (argument href_args) = None"
    by (simp_all add: anchor_def g)
  have x1: "xpath ?w empty_href_page (str ''//a'') = Inr (map Elem ([] @ [anchor (Some [])] @ []))"
    by (simp add: cli_world_def selected_empty_href)
  have x2: "xpath ?w no_href_page (str ''//a'') = Inr (map Elem ([] @ [anchor None] @ []))"
    by (simp add: cli_world_def selected_no_href)
  have m: "main ?w (str ''scrape'' # href_tokens) =
      evaluate ?w href_args empty_href_page [str ''//a''] ?p"
    using startup_href [of empty_href_page] by (simp add: main_after_startup)
  from attribute_mode_empty_value [OF t n c g1 g2 x1 x2, of ?p] t n c g1 g2 x1 x2 b show ?thesis
    by (simp add: m List.map_filter_simps write_results_def Let_def)
qed

section \<open>No match at all\<close>

text \<open>
  C10 as stated fails: without the existence check, when no expression matches, the
  program still writes the envelope of \<open>-b\<close> (when \<open>-t\<close> is off).  On the command line
  \<open>scrape -b -e //a\<close> and a document without an anchor, standard output holds the five
  lines of the envelope.
\<close>
theorem no_match_prints_envelope_counterexample:
  "\<not> check_existence body_args \<and>
   xpath (cli_world body_tokens body_args sample_page selected) sample_page (str ''//a'') = Inr [] \<and>
   main (cli_world body_tokens body_args sample_page selected) (str ''scrape'' # body_tokens) =
     (\<lparr>stdout = str ''<!DOCTYPE html>'' @ [nl] @ str ''<html>'' @ [nl] @ str ''<body>'' @ [nl] @
                str ''</body>'' @ [nl] @ str ''</html>'' @ [nl],
       stderr = [],
       events = [ParseArgs, ReadStdin, FromString HTMLParser sample_page, EvalXPath (str ''//a'')]\<rparr>,
      Inr ()) \<and>
   stdout (fst (main (cli_world body_tokens body_args sample_page selected) (str ''scrape'' # body_tokens))) \<noteq> []"
proof -
  let ?w = "cli_world body_tokens body_args sample_page selected"
  have x: "xpath ?w sample_page (str ''//a'') = Inr []"
    by (simp add: cli_world_def selected_sample)
  have m: "main ?w (str ''scrape'' # body_tokens) =
     (\<lparr>stdout = envelope [], stderr = [],
       events = [ParseArgs, ReadStdin, FromString HTMLParser sample_page, EvalXPath (str ''//a'')]\<rparr>,
      Inr ())"
    unfolding main_def bnd_def startup_body
    by (simp add: evaluate_def x act_defs finalize_def write_output_def)
       (simp add: body_args_def args0_def)
  show ?thesis
    by (simp add: m x) (simp add: envelope_def write_results_def body_args_def args0_def)
qed

text \<open>
  C10, amended: when the start-up succeeds, the existence check is off and every
  expression evaluates to no match, the program returns normally (status 0) after
  evaluating every expression; standard output is empty, except with \<open>-b\<close> and without
  \<open>-t\<close>, where it is the envelope around no result.
\<close>
theorem no_match_exit_zero:
  assumes "startup w argv proc0 = (p, Inr (a, d, exprs))"
    and "\<not> check_existence a"
    and "\<forall>e\<in>set exprs. xpath w d e = Inr []"
  shows "main w argv =
           (p\<lparr>events := events p @ map EvalXPath exprs,
              stdout := (if body a \<and> \<not> text_opt a then envelope [] else [])\<rparr>,
            Inr ()) \<and>
         exit_code (snd (main w argv)) = 0"
proof -
  from assms(1) have out: "stdout p = []"
    by (rule startup_stdout)
  have "collect a (concat (map (\<lambda>e. []) exprs)) [] = Inr []"
    by (induction exprs) simp_all
  with assms(2,3) have "run_expressions w a d exprs [] p =
      (p\<lparr>events := events p @ map EvalXPath exprs\<rparr>, Inr [])"
    by (rule run_expressions_all)
  with assms(1) out show ?thesis
    by (simp add: main_def bnd_def evaluate_def finalize_def write_output_def write_stdout_def
          write_results_def)
qed

theorem no_match_exit_zero_witness:
  "startup (cli_world plain_tokens plain_args sample_page selected) (str ''scrape'' # plain_tokens) proc0 =
     (\<lparr>stdout = [], stderr = [], events = [ParseArgs, ReadStdin, FromString HTMLParser sample_page]\<rparr>,
      Inr (plain_args, sample_page, [str ''//a''])) \<and>
   \<not> check_existence plain_args \<and>
   xpath (cli_world plain_tokens plain_args sample_page selected) sample_page (str ''//a'') = Inr [] \<and>
   main (cli_world plain_tokens plain_args sample_page selected) (str ''scrape'' # plain_tokens) =
     (\<lparr>stdout = [], stderr = [],
       events = [ParseArgs, ReadStdin, FromString HTMLParser sample_page, EvalXPath (str ''//a'')]\<rparr>,
      Inr ()) \<and>
   exit_code (snd (main (cli_world plain_tokens plain_args sample_page selected) (str ''scrape'' # plain_tokens))) = 0"
proof -
  let ?w = "cli_world plain_tokens plain_args sample_page selected"
  have c: "\<not> check_existence plain_args" and b: "\<not> body plain_args"
    by (simp_all add: plain_args_def args0_def)
  have x: "\<forall>e\<in>set [str ''//a'']. xpath ?w sample_page e = Inr []"
    by (simp add: cli_world_def selected_sample)
  from no_match_exit_zero [OF startup_plain c x] startup_plain c x b show ?thesis
    by simp
qed

section \<open>Text mode without an expression\<close>

text \<open>
  C4: whenever the start-up succeeds with \<open>-t\<close> and no expression, the list of
  expressions is exactly the default one,
  \<open>//body//text()[not(ancestor::script) and not(ancestor::style)]\<close>, and the program
  goes on to evaluate that list.  When the input is the document
  \<open><html><body><script>x</script><p>Hello  world</p></body></html>\<close> on standard input,
  in which that expression selects the text node \<open>Hello  world\<close>, the output is the single
  line \<open>Hello world\<close>.
\<close>
theorem text_mode_default_expression:
  assumes "startup w argv proc0 = (p, Inr (a, d, exprs))"
    and "text_opt a" and "expression a = []"
  shows "exprs = [str ''//body//text()[not(ancestor::script) and not(ancestor::style)]''] \<and>
         main w argv =
           evaluate w a d [str ''//body//text()[not(ancestor::script) and not(ancestor::style)]''] p \<and>
         (html a = [] \<and> stdin_read w = Inr hello_page \<and>
          fromstring w (if rawinput a then DefaultParser else HTMLParser) hello_page = Inr d \<and>
          xpath w d (str ''//body//text()[not(ancestor::script) and not(ancestor::style)]'') =
            Inr [Str (str ''Hello  world'')] \<and>
          \<not> check_existence a \<longrightarrow>
          main w argv =
            (\<lparr>stdout = str ''Hello world'' @ [nl], stderr = [],
              events = [ParseArgs, ReadStdin,
                        FromString (if rawinput a then DefaultParser else HTMLParser) hello_page,
                        EvalXPath (str ''//body//text()[not(ancestor::script) and not(ancestor::style)]'')]\<rparr>,
             Inr ()))"
proof -
  let ?e = "str ''//body//text()[not(ancestor::script) and not(ancestor::style)]''"
  from startup_parse_args [OF assms(1)] have g: "\<not> contains (str ''-eb'') (join [sp] argv)"
    and pa: "parse_args w (drop 1 argv) = Inr a"
    by blast+
  from assms g pa have x: "exprs = [?e]"
    by (auto simp: startup_def act_defs default_expression_def
             split: if_splits sum.splits prod.splits)
  with assms(1) have m: "main w argv = evaluate w a d [?e] p"
    by (simp add: main_after_startup)
  have "main w argv =
            (\<lparr>stdout = str ''Hello world'' @ [nl], stderr = [],
              events = [ParseArgs, ReadStdin,
                        FromString (if rawinput a then DefaultParser else HTMLParser) hello_page, EvalXPath ?e]\<rparr>,
             Inr ())"
    if h: "html a = []" and i: "stdin_read w = Inr hello_page"
      and f: "fromstring w (if rawinput a then DefaultParser else HTMLParser) hello_page = Inr d"
      and s: "xpath w d ?e = Inr [Str (str ''Hello  world'')]" and c: "\<not> check_existence a"
  proof -
    have ne: "hello_page \<noteq> []" by (simp add: hello_page_def)
    have "startup w argv proc0 =
       (\<lparr>stdout = [], stderr = [],
         events = [ParseArgs, ReadStdin, FromString (if rawinput a then DefaultParser else HTMLParser) hello_page]\<rparr>,
        Inr (a, d, [?e]))"
      using g pa assms(2,3) h i f ne
      by (simp add: startup_def act_defs proc0_def read_input_def load_document_def
            apply_charset_def detect_charset_hello_page parse_with_def default_expression_def)
    with assms(1) have p: "p = \<lparr>stdout = [], stderr = [],
        events = [ParseArgs, ReadStdin, FromString (if rawinput a then DefaultParser else HTMLParser) hello_page]\<rparr>"
      by simp
    have "evaluate w a d [?e] p =
       (p\<lparr>events := events p @ [EvalXPath ?e], stdout := stdout p @ str ''Hello world'' @ [nl]\<rparr>, Inr ())"
      using assms(2) c s
      by (simp add: evaluate_def act_defs clean_text_hello strip_hello finalize_def
            clean_text_hello_again write_output_def write_results_def)
         (simp add: str_def)
    with m p show ?thesis by simp
  qed
  with x m show ?thesis by simp
qed

theorem text_mode_default_expression_witness:
  "startup (cli_world text_tokens text_args hello_page selected) (str ''scrape'' # text_tokens) proc0 =
     (\<lparr>stdout = [], stderr = [], events = [ParseArgs, ReadStdin, FromString HTMLParser hello_page]\<rparr>,
      Inr (text_args, hello_page, [str ''//body//text()[not(ancestor::script) and not(ancestor::style)]''])) \<and>
   text_opt text_args \<and> expression text_args = [] \<and> html text_args = [] \<and>
   stdin_read (cli_world text_tokens text_args hello_page selected) = Inr hello_page \<and>
   fromstring (cli_world text_tokens text_args hello_page selected)
     (if rawinput text_args then DefaultParser else HTMLParser) hello_page = Inr hello_page \<and>
   xpath (cli_world text_tokens text_args hello_page selected) hello_page
     (str ''//body//text()[not(ancestor::script) and not(ancestor::style)]'') =
     Inr [Str (str ''Hello  world'')] \<and>
   \<not> check_existence text_args \<and>
   main (cli_world text_tokens text_args hello_page selected) (str ''scrape'' # text_tokens) =
     (\<lparr>stdout = str ''Hello world'' @ [nl], stderr = [],
       events = [ParseArgs, ReadStdin, FromString HTMLParser hello_page,
                 EvalXPath (str ''//body//text()[not(ancestor::script) and not(ancestor::style)]'')]\<rparr>,
      Inr ())"
proof -
  let ?w = "cli_world text_tokens text_args hello_page selected"
  have h: "text_opt text_args" "expression text_args = []" "html text_args = []"
    "\<not> check_existence text_args" "\<not> rawinput text_args"
    by (simp_all add: text_args_def args0_def)
  have i: "stdin_read ?w = Inr hello_page"
    and f: "fromstring ?w (if rawinput text_args then DefaultParser else HTMLParser) hello_page = Inr hello_page"
    and x: "xpath ?w hello_page (str ''//body//text()[not(ancestor::script) and not(ancestor::style)]'') =
              Inr [Str (str ''Hello  world'')]"
    by (simp_all add: cli_world_def selected_hello)
  from text_mode_default_expression [OF startup_text h(1,2)] h(3,4) i f x
  have "main ?w (str ''scrape'' # text_tokens) =
     (\<lparr>stdout = str ''Hello world'' @ [nl], stderr = [],
       events = [ParseArgs, ReadStdin,
                 FromString (if rawinput text_args then DefaultParser else HTMLParser) hello_page,
                 EvalXPath (str ''//body//text()[not(ancestor::script) and not(ancestor::style)]'')]\<rparr>,
      Inr ())"
    by blast
  with startup_text h i f x show ?thesis
    by simp
qed

section \<open>The declared charset\<close>

text \<open>
  A decoding that raises \<open>UnicodeDecodeError\<close> or \<open>LookupError\<close> is discarded: the
  loading goes on with the bytes as they were.
\<close>

lemma charset_failure_caught:
  assumes "detect_charset inp = Some charset"
    and "decode w charset inp = Inl ex"
    and "fst ex = UnicodeDecodeError \<or> fst ex = LookupError"
  shows "apply_charset w inp p = (p\<lparr>events := events p @ [Decode charset]\<rparr>, Inr inp)"
  using assms by (auto simp: apply_charset_def act_defs)

text \<open>
  C7: the declared charset is meant to be advisory.  A document that declares the codec
  \<open>undefined\<close> ends the program all the same: the codec raises \<open>UnicodeError\<close>, which is
  neither of the two classes the inner \<open>except\<close> clause names nor one the outer clause
  names, so nothing is parsed or evaluated and the status is 1.  (The traceback the
  interpreter prints is not part of the model.)
\<close>

theorem charset_undefined_uncaught:
  "main (sample_world sample_args undefined_page sample_xpath) sample_argv =
     (\<lparr>stdout = [], stderr = [], events = [ParseArgs, ReadStdin, Decode (str ''undefined'')]\<rparr>,
      Inl (Uncaught (UnicodeError, str ''undefined encoding''))) \<and>
   exit_code (snd (main (sample_world sample_args undefined_page sample_xpath) sample_argv)) = 1"
proof -
  have ne: "undefined_page \<noteq> []" by (simp add: undefined_page_def)
  have "main (sample_world sample_args undefined_page sample_xpath) sample_argv =
     (\<lparr>stdout = [], stderr = [], events = [ParseArgs, ReadStdin, Decode (str ''undefined'')]\<rparr>,
      Inl (Uncaught (UnicodeError, str ''undefined encoding'')))"
    by (simp add: main_def startup_def no_eb_sample_argv sample_world_def act_defs proc0_def
          read_input_def sample_args_def is_xpath_slash_a is_xpath_slash_p load_document_def
          apply_charset_def detect_charset_undefined_page codecs_decode_def parse_failed_def ne)
  then show ?thesis by simp
qed

section \<open>The selector classifier decides the listed patterns\<close>

lemma first_some_eq_None: "first_some f xs = None \<longleftrightarrow> (\<forall>x\<in>set xs. f x = None)"
  by (induction xs) (auto split: option.splits)

lemma match_lit:
  "match_here (lit s @ p) t \<noteq> None \<longleftrightarrow>
     take (length s) t = str s \<and> match_here p (drop (length s) t) \<noteq> None"
proof (induction s arbitrary: t)
  case Nil
  then show ?case by (simp add: lit_def str_def)
next
  case (Cons a s)
  have l: "lit (a # s) @ p = One (chr (of_char a)) # (lit s @ p)"
    by (simp add: lit_def)
  show ?case
  proof (cases t)
    case Nil
    then show ?thesis by (simp add: l match_One_Nil str_def del: match_here.simps(2))
  next
    case (Cons x xs)
    with Cons.IH [of xs] show ?thesis
      by (auto simp: l match_One_Cons str_def chr_def simp del: match_here.simps(2))
  qed
qed

lemma match_lit_only: "match_here (lit s) t \<noteq> None \<longleftrightarrow> startswith t (str s)"
  using match_lit [of s "[]" t] by (simp add: startswith_def str_def)

lemma search_lit: "search_from (lit s) t \<noteq> None \<longleftrightarrow> contains (str s) t"
proof (induction t)
  case Nil
  then show ?case using match_lit_only [of s "[]"] by (auto simp: startswith_def str_def)
next
  case (Cons c cs)
  then show ?case
    using match_lit_only [of s "c # cs"]
    by (auto simp: startswith_def str_def simp del: match_here.simps(2) split: option.splits)
qed

lemma match_until:
  "match_here [Star (not_chr b), One (chr b)] cs \<noteq> None \<longleftrightarrow> b \<in> set cs"
proof
  assume "match_here [Star (not_chr b), One (chr b)] cs \<noteq> None"
  then obtain k where "match_here [One (chr b)] (drop k cs) \<noteq> None"
    by (auto simp: first_some_eq_None)
  then have "\<exists>xs. drop k cs = b # xs"
    by (cases "drop k cs") (auto simp: match_One_Cons match_One_Nil chr_def
          simp del: match_here.simps(2) split: if_splits)
  then show "b \<in> set cs"
    by (metis in_set_dropD list.set_intros(1))
next
  assume b: "b \<in> set cs"
  let ?n = "length (takeWhile (not_chr b) cs)"
  have "drop ?n cs = dropWhile (not_chr b) cs"
    by (simp add: dropWhile_eq_drop)
  moreover from b have "dropWhile (not_chr b) cs \<noteq> []"
    by (auto simp: not_chr_def dropWhile_eq_Nil_conv)
  moreover from this have "\<not> not_chr b (hd (dropWhile (not_chr b) cs))"
    by (rule hd_dropWhile)
  ultimately obtain xs where "drop ?n cs = b # xs"
    by (cases "dropWhile (not_chr b) cs") (auto simp: not_chr_def)
  then have "match_here [One (chr b)] (drop ?n cs) \<noteq> None"
    by (simp add: match_One_Cons chr_def del: match_here.simps(2))
  moreover have "?n \<in> set (counts (Star (not_chr b)) cs)"
    by (simp add: counts_def Let_def)
  ultimately show "match_here [Star (not_chr b), One (chr b)] cs \<noteq> None"
    unfolding match_here.simps(2) [of "Star (not_chr b)"] first_some_eq_None
    by (metis option.map_disc_iff)
qed

lemma search_enclosed:
  "search_from [One (chr a), Star (not_chr b), One (chr b)] t \<noteq> None \<longleftrightarrow> enclosed a b t"
proof (induction t)
  case Nil
  then show ?case by (simp add: match_One_Nil del: match_here.simps(2))
next
  case (Cons c cs)
  have "match_here [One (chr a), Star (not_chr b), One (chr b)] (c # cs) \<noteq> None \<longleftrightarrow>
          c = a \<and> b \<in> set cs"
    using match_until [of b cs]
    by (auto simp: match_One_Cons chr_def simp del: match_here.simps(2))
  with Cons show ?case
    by (auto simp del: match_here.simps(2) split: option.splits)
qed

lemma enclosed_iff:
  "enclosed a b s \<longleftrightarrow> (\<exists>u v w. s = u @ [a] @ v @ [b] @ w \<and> b \<notin> set v)"
proof (induction s)
  case Nil
  then show ?case by simp
next
  case (Cons c cs)
  show ?case
  proof
    assume "enclosed a b (c # cs)"
    then consider "c = a" "b \<in> set cs" | "enclosed a b cs" by auto
    then show "\<exists>u v w. c # cs = u @ [a] @ v @ [b] @ w \<and> b \<notin> set v"
    proof cases
      case 1
      from 1(2) obtain v w where "cs = v @ b # w" "b \<notin> set v"
        by (auto dest: split_list_first)
      with 1(1) have "c # cs = [] @ [a] @ v @ [b] @ w \<and> b \<notin> set v" by simp
      then show ?thesis by blast
    next
      case 2
      with Cons.IH obtain u v w where "cs = u @ [a] @ v @ [b] @ w" "b \<notin> set v" by blast
      then have "c # cs = (c # u) @ [a] @ v @ [b] @ w \<and> b \<notin> set v" by simp
      then show ?thesis by blast
    qed
  next
    assume "\<exists>u v w. c # cs = u @ [a] @ v @ [b] @ w \<and> b \<notin> set v"
    then obtain u v w where e: "c # cs = u @ [a] @ v @ [b] @ w" by blast
    show "enclosed a b (c # cs)"
    proof (cases u)
      case Nil
      with e show ?thesis by auto
    next
      case (Cons x xs)
      with e have "cs = xs @ [a] @ v @ [b] @ w" by simp
      moreover have "enclosed a b (xs @ [a] @ v @ [b] @ w)"
        by (induction xs) auto
      ultimately show ?thesis by simp
    qed
  qed
qed

lemma enclosing_pattern:
  "lit [a] @ [Star (not_chr (of_char b))] @ lit [b] =
     [One (chr (of_char a)), Star (not_chr (of_char b)), One (chr (of_char b))]"
  by (simp add: lit_def)

text \<open>
  C2: the classifier is a function of the expression alone, and it answers XPath exactly
  when the expression matches one of the listed patterns, CSS otherwise.
\<close>
theorem classify_patterns: "classify e = (if spec_is_xpath e then XPath else CSS)"
proof -
  have "is_xpath e \<longleftrightarrow> spec_is_xpath e"
    unfolding is_xpath_def xpath_patterns_def spec_is_xpath_def list_ex_Cons_iff list_ex_Nil_iff re_search.simps
      enclosing_pattern match_lit_only search_lit search_enclosed
    by simp
  then show ?thesis by (simp add: classify_def)
qed

theorem classify_patterns_witness:
  "classify (str ''//a/@href'') = XPath \<and>
   classify (str ''table.wikitable > tbody > tr > td > b > a'') = CSS"
  using classify_patterns [of "str ''//a/@href''"]
    classify_patterns [of "str ''table.wikitable > tbody > tr > td > b > a''"]
  by (simp add: spec_is_xpath_def startswith_def str_def)

section \<open>Facts about the matcher\<close>

lemma first_some_SomeD: "first_some f xs = Some y \<Longrightarrow> \<exists>x\<in>set xs. f x = Some y"
  by (induction xs) (auto split: option.splits)

lemma first_some_greatest:
  "first_some f (rev [l ..< Suc n]) = Some y \<Longrightarrow>
     \<exists>k. l \<le> k \<and> k \<le> n \<and> f k = Some y \<and> (\<forall>j. k < j \<and> j \<le> n \<longrightarrow> f j = None)"
proof (induction n)
  case 0
  then show ?case by (cases "l = 0") (auto split: option.splits)
next
  case (Suc n)
  show ?case
  proof (cases "l \<le> Suc n")
    case False
    with Suc.prems show ?thesis by simp
  next
    case le: True
    show ?thesis
    proof (cases "f (Suc n)")
      case (Some z)
      with Suc.prems le have "f (Suc n) = Some y" by simp
      with le show ?thesis by auto
    next
      case None
      with Suc.prems le have "first_some f (rev [l ..< Suc n]) = Some y" by simp
      from Suc.IH [OF this] obtain k where
        k: "l \<le> k" "k \<le> n" "f k = Some y" "\<forall>j. k < j \<and> j \<le> n \<longrightarrow> f j = None"
        by blast
      have "\<forall>j. k < j \<and> j \<le> Suc n \<longrightarrow> f j = None"
        using k(4) None by (auto simp: le_Suc_eq)
      with k show ?thesis by (intro exI [of _ k]) auto
    qed
  qed
qed

lemma match_single_unbounded:
  assumes "hi a = None"
  shows "match_here [a] s =
     (if lo a \<le> length (takeWhile (cls a) s) then Some [takeWhile (cls a) s] else None)"
proof -
  let ?n = "length (takeWhile (cls a) s)"
  have t: "take ?n s = takeWhile (cls a) s"
    by (rule takeWhile_eq_take [symmetric])
  show ?thesis using assms t by (simp add: counts_def Let_def)
qed

text \<open>
  What a match consists of: one segment for each atom, made of characters of its class,
  at least as many as the atom asks for; together they are a prefix of the text.
\<close>

lemma match_here_sound:
  "match_here p s = Some g \<Longrightarrow>
     list_all2 (\<lambda>a seg. (\<forall>c\<in>set seg. cls a c) \<and> lo a \<le> length seg) p g \<and>
     take (length (concat g)) s = concat g"
proof (induction p arbitrary: s g)
  case Nil
  then show ?case by simp
next
  case (Cons a p)
  from Cons.prems obtain k where k: "k \<in> set (counts a s)"
    and m: "map_option ((#) (take k s)) (match_here p (drop k s)) = Some g"
    by (auto dest!: first_some_SomeD)
  from m obtain g' where g': "match_here p (drop k s) = Some g'" and g: "g = take k s # g'"
    by auto
  from k have kl: "lo a \<le> k" and kn: "k \<le> length (takeWhile (cls a) s)"
    by (auto simp: counts_def Let_def split: option.splits)
  have c: "\<forall>c\<in>set (take k s). cls a c"
  proof
    fix c
    assume "c \<in> set (take k s)"
    then obtain i where i: "i < k" "i < length s" "s ! i = c"
      by (auto simp: in_set_conv_nth)
    with kn have lt: "i < length (takeWhile (cls a) s)" by simp
    then have "takeWhile (cls a) s ! i \<in> set (takeWhile (cls a) s)"
      by (rule nth_mem)
    moreover from lt have "takeWhile (cls a) s ! i = s ! i"
      by (rule takeWhile_nth)
    ultimately have "c \<in> set (takeWhile (cls a) s)"
      using i by simp
    then show "cls a c" by (auto dest: set_takeWhileD)
  qed
  have len: "length (take k s) = k"
    using kn length_takeWhile_le [of "cls a" s] by simp
  from Cons.IH [OF g'] have ih: "list_all2 (\<lambda>a seg. (\<forall>c\<in>set seg. cls a c) \<and> lo a \<le> length seg) p g'"
    and pre: "take (length (concat g')) (drop k s) = concat g'" by auto
  have "length (concat g) = k + length (concat g')"
    using len by (simp add: g)
  then have "take (length (concat g)) s = take k s @ take (length (concat g')) (drop k s)"
    by (simp only: take_add)
  with pre have "take (length (concat g)) s = concat g" by (simp add: g)
  with ih c kl len show ?case by (simp add: g)
qed

section \<open>The normalizer, step by step\<close>

lemma sp_neq_nl: "sp \<noteq> nl" "nl \<noteq> sp"
  by (simp_all add: sp_def nl_def)

lemma isspace_sp: "isspace sp"
  by (simp add: isspace_def sp_def)

lemma isspace_nl: "isspace nl"
  by (simp add: isspace_def nl_def)

subsection \<open>Step 1: runs of spaces\<close>

lemma match_spaces:
  "match_here [Plus (chr sp)] s =
     (if s \<noteq> [] \<and> hd s = sp then Some [takeWhile (chr sp) s] else None)"
proof -
  have "1 \<le> length (takeWhile (chr sp) s) \<longleftrightarrow> s \<noteq> [] \<and> hd s = sp"
    by (cases s) (auto simp: chr_def)
  then show ?thesis
    using match_single_unbounded [of "Plus (chr sp)" s] by simp
qed

lemma sub_spaces_Nil: "re_sub [Plus (chr sp)] [sp] [] = []"
  by (simp add: match_spaces del: match_here.simps(2))

lemma sub_spaces_Cons:
  "re_sub [Plus (chr sp)] [sp] (c # cs) =
     (if c = sp then sp # re_sub [Plus (chr sp)] [sp] (dropWhile (chr sp) cs)
      else c # re_sub [Plus (chr sp)] [sp] cs)"
  by (simp add: match_spaces chr_def dropWhile_eq_drop [symmetric] del: match_here.simps(2))

lemma sub_spaces_hd:
  "s = [] \<or> hd s \<noteq> sp \<Longrightarrow>
   re_sub [Plus (chr sp)] [sp] s = [] \<or> hd (re_sub [Plus (chr sp)] [sp] s) \<noteq> sp"
  by (cases s) (auto simp: sub_spaces_Nil sub_spaces_Cons simp del: re_sub.simps)

lemma no_double_space_sub_spaces: "no_double_space (re_sub [Plus (chr sp)] [sp] s)"
proof (induction s rule: length_induct)
  case (1 s)
  show ?case
  proof (cases s)
    case Nil
    then show ?thesis by (simp add: sub_spaces_Nil no_double_space_def del: re_sub.simps)
  next
    case (Cons c cs)
    show ?thesis
    proof (cases "c = sp")
      case True
      let ?r = "dropWhile (chr sp) cs"
      have "length ?r < length s"
        using Cons length_dropWhile_le [of "chr sp" cs] by simp
      with 1 have ih: "no_double_space (re_sub [Plus (chr sp)] [sp] ?r)" by blast
      have "?r = [] \<or> hd ?r \<noteq> sp"
        using hd_dropWhile [of "chr sp" cs] by (auto simp: chr_def)
      then have "re_sub [Plus (chr sp)] [sp] ?r = [] \<or> hd (re_sub [Plus (chr sp)] [sp] ?r) \<noteq> sp"
        by (rule sub_spaces_hd)
      with ih show ?thesis
        unfolding Cons no_double_space_def
        by (auto simp: sub_spaces_Cons True successively_Cons simp del: re_sub.simps)
    next
      case False
      from 1 Cons have "no_double_space (re_sub [Plus (chr sp)] [sp] cs)" by simp
      with False show ?thesis
        unfolding Cons no_double_space_def
        by (auto simp: sub_spaces_Cons successively_Cons simp del: re_sub.simps)
    qed
  qed
qed

lemma sub_spaces_fixed:
  "no_double_space s \<Longrightarrow> re_sub [Plus (chr sp)] [sp] s = s"
proof (induction s)
  case Nil
  then show ?case by (simp add: sub_spaces_Nil del: re_sub.simps)
next
  case (Cons c cs)
  from Cons.prems have t: "no_double_space cs" and h: "cs = [] \<or> \<not> (c = sp \<and> hd cs = sp)"
    by (auto simp: no_double_space_def successively_Cons)
  from h have "c = sp \<Longrightarrow> dropWhile (chr sp) cs = cs"
    by (cases cs) (auto simp: chr_def)
  with Cons.IH [OF t] show ?case
    by (simp add: sub_spaces_Cons del: re_sub.simps)
qed

subsection \<open>Substitutions in general\<close>

lemma re_sub_no_match:
  "all_suffixes (\<lambda>u. match_here p u = None) s \<Longrightarrow> re_sub p repl s = s"
  by (induction s) (simp_all del: match_here.simps(2))

lemma re_sub_newlines_hd:
  "re_sub p [nl, nl] s = [] \<or> hd (re_sub p [nl, nl] s) = nl \<or>
   (s \<noteq> [] \<and> hd (re_sub p [nl, nl] s) = hd s)"
  by (cases s) (auto simp del: match_here.simps(2) split: option.splits)

lemma no_double_space_drop: "no_double_space s \<Longrightarrow> no_double_space (drop n s)"
proof -
  assume "no_double_space s"
  then have "successively (\<lambda>x y. \<not> (x = sp \<and> y = sp)) (take n s @ drop n s)"
    by (simp add: no_double_space_def)
  then show ?thesis
    unfolding successively_append_iff no_double_space_def by blast
qed

lemma no_double_space_Cons:
  "no_double_space (c # s) \<longleftrightarrow> (s = [] \<or> \<not> (c = sp \<and> hd s = sp)) \<and> no_double_space s"
  by (cases s) (auto simp: no_double_space_def)

lemma no_double_space_re_sub:
  "no_double_space s \<Longrightarrow> no_double_space (re_sub p [nl, nl] s)"
proof (induction p "[nl, nl]" s rule: re_sub.induct)
  case (1 p)
  then show ?case
    by (auto simp: no_double_space_Cons sp_neq_nl simp del: match_here.simps(2) split: option.splits)
next
  case (2 p c cs)
  from "2.prems" have cs: "no_double_space cs" and h: "cs = [] \<or> \<not> (c = sp \<and> hd cs = sp)"
    by (auto simp: no_double_space_Cons)
  have keep: "no_double_space (c # re_sub p [nl, nl] cs)" if "no_double_space (re_sub p [nl, nl] cs)"
    using that h re_sub_newlines_hd [of p cs] sp_neq_nl
    by (auto simp: no_double_space_Cons)
  show ?case
  proof (cases "match_here p (c # cs)")
    case None
    with 2 cs keep show ?thesis by (simp del: match_here.simps(2))
  next
    case (Some g)
    show ?thesis
    proof (cases "length (concat g) = 0")
      case True
      with 2 Some cs have "no_double_space (re_sub p [nl, nl] cs)" by simp
      then have "no_double_space (c # re_sub p [nl, nl] cs)" by (rule keep)
      then have "no_double_space (nl # nl # c # re_sub p [nl, nl] cs)"
        using sp_neq_nl by (simp add: no_double_space_Cons)
      with Some True show ?thesis by (simp del: match_here.simps(2))
    next
      case False
      let ?r = "drop (length (concat g)) (c # cs)"
      from "2.prems" have "no_double_space ?r" by (rule no_double_space_drop)
      with 2 Some False have "no_double_space (re_sub p [nl, nl] ?r)" by simp
      then have "no_double_space (nl # nl # re_sub p [nl, nl] ?r)"
        using sp_neq_nl by (simp add: no_double_space_Cons)
      moreover have "re_sub p [nl, nl] (c # cs) = nl # nl # re_sub p [nl, nl] ?r"
        by (subst re_sub.simps(2)) (simp only: Some option.case False if_False append.simps)
      ultimately show ?thesis by simp
    qed
  qed
qed

subsection \<open>Newlines in leading whitespace\<close>

lemma leading_newlines_Nil: "leading_newlines [] = 0"
  by (simp add: leading_newlines_def)

lemma leading_newlines_Cons:
  "leading_newlines (c # cs) =
     (if isspace c then (if c = nl then 1 else 0) + leading_newlines cs else 0)"
  by (simp add: leading_newlines_def)

lemma leading_newlines_append:
  "\<forall>c\<in>set m. isspace c \<Longrightarrow>
   leading_newlines (m @ r) = length (filter (\<lambda>c. c = nl) m) + leading_newlines r"
  by (induction m) (simp_all add: leading_newlines_Cons)

lemma all_suffixes_mono:
  "all_suffixes P s \<Longrightarrow> (\<And>u. P u \<Longrightarrow> Q u) \<Longrightarrow> all_suffixes Q s"
  by (induction s) auto

lemma all_suffixes_whole: "all_suffixes P s \<Longrightarrow> P s"
  by (cases s) auto

lemma all_suffixes_drop: "all_suffixes P s \<Longrightarrow> all_suffixes P (drop n s)"
proof (induction s arbitrary: n)
  case Nil
  then show ?case by simp
next
  case (Cons c cs)
  then show ?case by (cases n) auto
qed

subsection \<open>Steps 2 and 3: a match needs three newlines in the leading whitespace\<close>

lemma match_three_newlines_sound:
  assumes "match_here [AtLeast 3 (chr nl)] u = Some g"
  shows "3 \<le> leading_newlines u"
proof -
  from match_here_sound [OF assms] obtain g0 where g: "g = [g0]"
    and c: "\<forall>c\<in>set g0. c = nl" and l: "3 \<le> length g0" and t: "take (length g0) u = g0"
    by (auto simp: list_all2_Cons1 chr_def)
  have u: "u = g0 @ drop (length g0) u"
    using t append_take_drop_id [of "length g0" u] by simp
  from c have "\<forall>c\<in>set g0. isspace c" by (auto simp: isspace_nl)
  then have "leading_newlines (g0 @ drop (length g0) u) =
      length (filter (\<lambda>c. c = nl) g0) + leading_newlines (drop (length g0) u)"
    by (rule leading_newlines_append)
  moreover from c have "filter (\<lambda>c. c = nl) g0 = g0" by (simp add: filter_id_conv)
  ultimately show ?thesis using l u by simp
qed

lemma match_blank_lines_sound:
  assumes "match_here [One (chr nl), Star isspace, One (chr nl), Star isspace, Plus (chr nl)] u = Some g"
  shows "3 \<le> leading_newlines u" and "0 < length (concat g)"
proof -
  from match_here_sound [OF assms] obtain g0 g1 g2 g3 g4 where g: "g = [g0, g1, g2, g3, g4]"
    and c0: "\<forall>c\<in>set g0. c = nl" and l0: "1 \<le> length g0"
    and c1: "\<forall>c\<in>set g1. isspace c"
    and c2: "\<forall>c\<in>set g2. c = nl" and l2: "1 \<le> length g2"
    and c3: "\<forall>c\<in>set g3. isspace c"
    and c4: "\<forall>c\<in>set g4. c = nl" and l4: "1 \<le> length g4"
    and t: "take (length (concat g)) u = concat g"
    by (auto simp: list_all2_Cons1 chr_def)
  have u: "u = concat g @ drop (length (concat g)) u"
    using t append_take_drop_id [of "length (concat g)" u] by simp
  from c0 c1 c2 c3 c4 have "\<forall>c\<in>set (concat g). isspace c"
    by (auto simp: g isspace_nl)
  then have "leading_newlines (concat g @ drop (length (concat g)) u) =
      length (filter (\<lambda>c. c = nl) (concat g)) + leading_newlines (drop (length (concat g)) u)"
    by (rule leading_newlines_append)
  moreover from c0 c2 c4 have "filter (\<lambda>c. c = nl) g0 = g0" "filter (\<lambda>c. c = nl) g2 = g2"
    "filter (\<lambda>c. c = nl) g4 = g4" by (simp_all add: filter_id_conv)
  then have "3 \<le> length (filter (\<lambda>c. c = nl) (concat g))"
    using l0 l2 l4 by (simp add: g)
  ultimately show "3 \<le> leading_newlines u" using u by simp
  from l0 show "0 < length (concat g)" by (cases g0) (simp_all add: g)
qed

lemma three_newlines_fixed:
  assumes "few_newlines s"
  shows "re_sub [AtLeast 3 (chr nl)] [nl, nl] s = s"
proof (rule re_sub_no_match)
  from assms show "all_suffixes (\<lambda>u. match_here [AtLeast 3 (chr nl)] u = None) s"
    unfolding few_newlines_def
  proof (rule all_suffixes_mono)
    fix u
    assume "leading_newlines u \<le> 2"
    then show "match_here [AtLeast 3 (chr nl)] u = None"
      using match_three_newlines_sound [of u] by (cases "match_here [AtLeast 3 (chr nl)] u") auto
  qed
qed

lemma blank_lines_fixed:
  assumes "few_newlines s"
  shows "re_sub [One (chr nl), Star isspace, One (chr nl), Star isspace, Plus (chr nl)] [nl, nl] s = s"
proof (rule re_sub_no_match)
  let ?p = "[One (chr nl), Star isspace, One (chr nl), Star isspace, Plus (chr nl)]"
  from assms show "all_suffixes (\<lambda>u. match_here ?p u = None) s"
    unfolding few_newlines_def
  proof (rule all_suffixes_mono)
    fix u
    assume "leading_newlines u \<le> 2"
    then show "match_here ?p u = None"
      using match_blank_lines_sound(1) [of u] by (cases "match_here ?p u") auto
  qed
qed

subsection \<open>Step 3: where the greedy match ends\<close>

lemma match_newlines:
  "match_here [Plus (chr nl)] s =
     (if s \<noteq> [] \<and> hd s = nl then Some [takeWhile (chr nl) s] else None)"
proof -
  have "1 \<le> length (takeWhile (chr nl) s) \<longleftrightarrow> s \<noteq> [] \<and> hd s = nl"
    by (cases s) (auto simp: chr_def)
  then show ?thesis
    using match_single_unbounded [of "Plus (chr nl)" s] by simp
qed

lemma takeWhile_drop:
  assumes "m \<le> length (takeWhile P v)"
  shows "takeWhile P (drop m v) = drop m (takeWhile P v)"
proof -
  have "drop m v = drop m (takeWhile P v @ dropWhile P v)" by simp
  also have "\<dots> = drop m (takeWhile P v) @ drop (m - length (takeWhile P v)) (dropWhile P v)"
    by (rule drop_append)
  also have "\<dots> = drop m (takeWhile P v) @ dropWhile P v"
    using assms by simp
  finally have "takeWhile P (drop m v) = takeWhile P (drop m (takeWhile P v) @ dropWhile P v)"
    by simp
  also have "\<dots> = drop m (takeWhile P v) @ takeWhile P (dropWhile P v)"
    by (rule takeWhile_append2) (auto dest!: in_set_dropD set_takeWhileD)
  also have "takeWhile P (dropWhile P v) = []"
  proof (cases "dropWhile P v")
    case Nil
    then show ?thesis by (simp only: takeWhile.simps)
  next
    case (Cons x xs)
    with hd_dropWhile [of P v] have "\<not> P x" by simp
    with Cons show ?thesis by simp
  qed
  finally show ?thesis by simp
qed

lemma leading_newlines_zero:
  "leading_newlines s = 0 \<longleftrightarrow> nl \<notin> set (takeWhile isspace s)"
  by (auto simp: leading_newlines_def filter_empty_conv)

text \<open>A newline inside the leading whitespace, by its position.\<close>

lemma newline_in_whitespace:
  assumes "nl \<in> set (drop m (takeWhile isspace v))"
  obtains j where "m \<le> j" "j < length (takeWhile isspace v)" "drop j v = nl # drop (Suc j) v"
proof -
  from assms obtain i where i: "i < length (takeWhile isspace v) - m"
    "takeWhile isspace v ! (m + i) = nl"
    by (auto simp: in_set_conv_nth)
  define j where "j = m + i"
  with i have j: "m \<le> j" "j < length (takeWhile isspace v)" "takeWhile isspace v ! j = nl"
    by simp_all
  from j(2) have "takeWhile isspace v ! j = v ! j" by (rule takeWhile_nth)
  moreover from j(2) have "j < length v"
    using length_takeWhile_le [of isspace v] by simp
  ultimately have "drop j v = nl # drop (Suc j) v"
    using j(3) by (simp add: Cons_nth_drop_Suc [symmetric])
  with j(1,2) show ?thesis by (rule that)
qed

lemma match_tail_greedy:
  assumes "match_here [Star isspace, Plus (chr nl)] v = Some g"
  shows "leading_newlines (drop (length (concat g)) v) = 0"
proof -
  let ?n = "length (takeWhile isspace v)"
  let ?f = "\<lambda>k. map_option ((#) (take k v)) (match_here [Plus (chr nl)] (drop k v))"
  have c: "counts (Star isspace) v = rev [0 ..< Suc ?n]"
    by (simp add: counts_def Let_def del: upt_Suc)
  from assms have "first_some ?f (rev [0 ..< Suc ?n]) = Some g"
    unfolding match_here.simps(2) [of "Star isspace"] c .
  from first_some_greatest [OF this] obtain k where kn: "k \<le> ?n" and fk: "?f k = Some g"
    and mx: "\<forall>j. k < j \<and> j \<le> ?n \<longrightarrow> ?f j = None"
    by blast
  from fk have dk: "drop k v \<noteq> []" and hk: "hd (drop k v) = nl"
    and g: "g = [take k v, takeWhile (chr nl) (drop k v)]"
    by (auto simp: match_newlines simp del: match_here.simps(2) split: if_splits)
  from dk have kv: "k < length v" by simp
  have "k \<noteq> ?n"
  proof
    assume "k = ?n"
    then have "drop k v = dropWhile isspace v" by (simp add: dropWhile_eq_drop)
    with dk hk have "\<not> isspace nl" using hd_dropWhile [of isspace v] by auto
    then show False by (simp add: isspace_nl)
  qed
  with kn have sk: "Suc k \<le> ?n" by simp
  with mx have "?f (Suc k) = None" by simp
  then have nx: "drop (Suc k) v = [] \<or> hd (drop (Suc k) v) \<noteq> nl"
    by (auto simp: match_newlines simp del: match_here.simps(2) split: if_splits)
  have dc: "drop k v = nl # drop (Suc k) v"
    using kv hk by (metis Cons_nth_drop_Suc hd_drop_conv_nth)
  have "takeWhile (chr nl) (drop (Suc k) v) = []"
    using nx by (auto simp: takeWhile_eq_Nil_iff chr_def)
  then have "takeWhile (chr nl) (drop k v) = [nl]"
    by (simp add: dc chr_def)
  with kv have len: "length (concat g) = Suc k" by (simp add: g)
  have "nl \<notin> set (takeWhile isspace (drop (Suc k) v))"
  proof
    assume "nl \<in> set (takeWhile isspace (drop (Suc k) v))"
    then have "nl \<in> set (drop (Suc k) (takeWhile isspace v))"
      using sk by (simp add: takeWhile_drop)
    then obtain j where j: "Suc k \<le> j" "j < ?n" "drop j v = nl # drop (Suc j) v"
      by (rule newline_in_whitespace)
    then have "?f j \<noteq> None"
      by (simp add: match_newlines del: match_here.simps(2))
    moreover from j have "k < j \<and> j \<le> ?n" by simp
    with mx have "?f j = None" by blast
    ultimately show False by blast
  qed
  then show ?thesis by (simp add: len leading_newlines_zero)
qed

lemma match_tail_complete:
  assumes "nl \<in> set (takeWhile isspace v)"
  shows "match_here [Star isspace, Plus (chr nl)] v \<noteq> None"
proof -
  from assms have "nl \<in> set (drop 0 (takeWhile isspace v))" by simp
  then obtain j where j: "j < length (takeWhile isspace v)" "drop j v = nl # drop (Suc j) v"
    by (rule newline_in_whitespace)
  from j(1) have "j \<in> set (counts (Star isspace) v)"
    by (simp add: counts_def Let_def)
  moreover from j(2) have
    "map_option ((#) (take j v)) (match_here [Plus (chr nl)] (drop j v)) \<noteq> None"
    by (simp add: match_newlines del: match_here.simps(2))
  ultimately have "\<exists>k\<in>set (counts (Star isspace) v).
      map_option ((#) (take k v)) (match_here [Plus (chr nl)] (drop k v)) \<noteq> None"
    by (rule bexI [rotated])
  then show ?thesis
    unfolding match_here.simps(2) [of "Star isspace"] first_some_eq_None by simp
qed

lemma match_blank_lines_greedy:
  assumes "match_here blank_lines u = Some g"
  shows "leading_newlines (drop (length (concat g)) u) = 0"
proof -
  from assms obtain u1 g1 where u: "u = nl # u1" and g: "g = [nl] # g1"
    and m1: "match_here [Star isspace, One (chr nl), Star isspace, Plus (chr nl)] u1 = Some g1"
    by (cases u) (auto simp: match_One_Cons match_One_Nil chr_def simp del: match_here.simps(2)
        split: if_splits)
  from m1 obtain k where k: "k \<in> set (counts (Star isspace) u1)"
    and m2: "map_option ((#) (take k u1))
              (match_here [One (chr nl), Star isspace, Plus (chr nl)] (drop k u1)) = Some g1"
    unfolding match_here.simps(2) [of "Star isspace"]
    by (auto dest!: first_some_SomeD simp del: match_here.simps(2))
  from k have "k \<le> length (takeWhile isspace u1)" by (auto simp: counts_def Let_def)
  then have kl: "k \<le> length u1" using length_takeWhile_le [of isspace u1] by simp
  from m2 obtain g2 where g1: "g1 = take k u1 # g2"
    and m3: "match_here [One (chr nl), Star isspace, Plus (chr nl)] (drop k u1) = Some g2"
    by (auto simp del: match_here.simps(2))
  from m3 obtain v g3 where d: "drop k u1 = nl # v" and g2: "g2 = [nl] # g3"
    and m4: "match_here [Star isspace, Plus (chr nl)] v = Some g3"
    by (cases "drop k u1") (auto simp: match_One_Cons match_One_Nil chr_def
        simp del: match_here.simps(2) split: if_splits)
  have "length (concat g) = Suc (k + Suc (length (concat g3)))"
    using kl by (simp add: g g1 g2)
  then have "drop (length (concat g)) u = drop (Suc (length (concat g3))) (drop k u1)"
    by (simp add: u add.commute)
  also have "\<dots> = drop (length (concat g3)) v" by (simp add: d)
  finally show ?thesis using match_tail_greedy [OF m4] by simp
qed

lemma match_blank_lines_complete:
  assumes "3 \<le> leading_newlines (nl # u1)"
  shows "match_here blank_lines (nl # u1) \<noteq> None"
proof -
  let ?W = "takeWhile isspace u1"
  from assms have two: "2 \<le> length (filter (\<lambda>c. c = nl) ?W)"
    by (simp add: leading_newlines_Cons isspace_nl) (simp add: leading_newlines_def)
  then have "filter (\<lambda>c. c = nl) ?W \<noteq> []" by auto
  then have "nl \<in> set ?W" by (auto simp: filter_empty_conv)
  then obtain a b where W: "?W = a @ nl # b" and na: "nl \<notin> set a"
    by (auto dest: split_list_first)
  from na have "filter (\<lambda>c. c = nl) a = []" by (auto simp: filter_empty_conv)
  with two W have "filter (\<lambda>c. c = nl) b \<noteq> []" by auto
  then have nb: "nl \<in> set b" by (auto simp: filter_empty_conv)
  have u1: "u1 = a @ nl # b @ dropWhile isspace u1"
    using takeWhile_dropWhile_id [of isspace u1] W by simp
  have la: "length a \<le> length ?W" by (simp add: W)
  have d: "drop (length a) u1 = nl # b @ dropWhile isspace u1"
    by (subst u1) simp
  have "\<forall>c\<in>set b. isspace c"
    using W set_takeWhileD [of _ isspace u1] by auto
  then have "takeWhile isspace (b @ dropWhile isspace u1) = b @ takeWhile isspace (dropWhile isspace u1)"
    by (simp add: takeWhile_append2)
  with nb have "nl \<in> set (takeWhile isspace (b @ dropWhile isspace u1))" by simp
  then have "match_here [Star isspace, Plus (chr nl)] (b @ dropWhile isspace u1) \<noteq> None"
    by (rule match_tail_complete)
  then have "match_here [One (chr nl), Star isspace, Plus (chr nl)] (drop (length a) u1) \<noteq> None"
    by (simp add: d match_One_Cons chr_def del: match_here.simps(2))
  then have "map_option ((#) (take (length a) u1))
       (match_here [One (chr nl), Star isspace, Plus (chr nl)] (drop (length a) u1)) \<noteq> None"
    by (simp del: match_here.simps(2))
  moreover from la have "length a \<in> set (counts (Star isspace) u1)"
    by (auto simp: counts_def Let_def)
  ultimately have "\<exists>k\<in>set (counts (Star isspace) u1). map_option ((#) (take k u1))
       (match_here [One (chr nl), Star isspace, Plus (chr nl)] (drop k u1)) \<noteq> None"
    by (rule bexI)
  then have "match_here [Star isspace, One (chr nl), Star isspace, Plus (chr nl)] u1 \<noteq> None"
    unfolding match_here.simps(2) [of "Star isspace"] first_some_eq_None by simp
  then show ?thesis
    by (simp add: match_One_Cons chr_def del: match_here.simps(2))
qed

subsection \<open>Step 3 leaves at most two newlines in any whitespace\<close>

lemma sub_blank_lines_Nil: "re_sub blank_lines [nl, nl] [] = []"
  by (simp add: match_One_Nil del: match_here.simps(2))

lemma sub_blank_lines_None:
  "match_here blank_lines (c # cs) = None \<Longrightarrow>
   re_sub blank_lines [nl, nl] (c # cs) = c # re_sub blank_lines [nl, nl] cs"
  by (simp del: match_here.simps(2))

lemma sub_blank_lines_Some:
  assumes "match_here blank_lines (c # cs) = Some g"
  shows "re_sub blank_lines [nl, nl] (c # cs) =
           nl # nl # re_sub blank_lines [nl, nl] (drop (length (concat g)) (c # cs))"
proof -
  from match_blank_lines_sound(2) [OF assms] have "length (concat g) \<noteq> 0" by simp
  then show ?thesis
    by (subst re_sub.simps(2)) (simp only: assms option.case if_False append.simps)
qed

lemma leading_newlines_sub_blank_lines:
  "leading_newlines (re_sub blank_lines [nl, nl] s) \<le> leading_newlines s"
proof (induction s rule: length_induct)
  case (1 s)
  show ?case
  proof (cases s)
    case Nil
    then show ?thesis by (simp add: sub_blank_lines_Nil del: re_sub.simps)
  next
    case (Cons c cs)
    show ?thesis
    proof (cases "match_here blank_lines (c # cs)")
      case None
      from 1 Cons have "leading_newlines (re_sub blank_lines [nl, nl] cs) \<le> leading_newlines cs"
        by simp
      then show ?thesis
        unfolding Cons sub_blank_lines_None [OF None] by (simp add: leading_newlines_Cons)
    next
      case (Some g)
      let ?r = "drop (length (concat g)) (c # cs)"
      from match_blank_lines_sound [OF Some] have three: "3 \<le> leading_newlines (c # cs)"
        and pos: "0 < length (concat g)" by simp_all
      from pos have "length ?r < length s" by (simp add: Cons)
      with 1 have "leading_newlines (re_sub blank_lines [nl, nl] ?r) \<le> leading_newlines ?r"
        by blast
      also have "leading_newlines ?r = 0"
        using Some by (rule match_blank_lines_greedy)
      finally have "leading_newlines (nl # nl # re_sub blank_lines [nl, nl] ?r) \<le> 2"
        by (simp add: leading_newlines_Cons isspace_nl)
      with three show ?thesis
        unfolding Cons sub_blank_lines_Some [OF Some] by simp
    qed
  qed
qed

lemma few_newlines_Cons:
  "few_newlines (c # cs) \<longleftrightarrow> leading_newlines (c # cs) \<le> 2 \<and> few_newlines cs"
  by (simp add: few_newlines_def)

lemma few_newlines_whole: "few_newlines s \<Longrightarrow> leading_newlines s \<le> 2"
  unfolding few_newlines_def by (rule all_suffixes_whole)

lemma few_newlines_sub_blank_lines: "few_newlines (re_sub blank_lines [nl, nl] s)"
proof (induction s rule: length_induct)
  case (1 s)
  show ?case
  proof (cases s)
    case Nil
    then show ?thesis
      by (simp add: sub_blank_lines_Nil few_newlines_def leading_newlines_Nil del: re_sub.simps)
  next
    case (Cons c cs)
    show ?thesis
    proof (cases "match_here blank_lines (c # cs)")
      case None
      let ?x = "re_sub blank_lines [nl, nl] cs"
      from 1 Cons have ih: "few_newlines ?x" by simp
      then have x2: "leading_newlines ?x \<le> 2" by (rule few_newlines_whole)
      have "leading_newlines (c # ?x) \<le> 2"
      proof (cases "c = nl")
        case True
        from None have "\<not> 3 \<le> leading_newlines (nl # cs)"
          using match_blank_lines_complete [of cs] by (auto simp: True)
        then have "leading_newlines cs \<le> 1"
          by (simp add: leading_newlines_Cons isspace_nl)
        with leading_newlines_sub_blank_lines [of cs] show ?thesis
          by (simp add: leading_newlines_Cons True isspace_nl)
      next
        case False
        with x2 show ?thesis by (simp add: leading_newlines_Cons)
      qed
      with ih show ?thesis
        unfolding Cons sub_blank_lines_None [OF None] by (simp add: few_newlines_Cons)
    next
      case (Some g)
      let ?r = "drop (length (concat g)) (c # cs)"
      let ?x = "re_sub blank_lines [nl, nl] ?r"
      from match_blank_lines_sound(2) [OF Some] have "length ?r < length s"
        by (simp add: Cons)
      with 1 have ih: "few_newlines ?x" by blast
      have "leading_newlines ?x \<le> leading_newlines ?r"
        by (rule leading_newlines_sub_blank_lines)
      also have "leading_newlines ?r = 0"
        using Some by (rule match_blank_lines_greedy)
      finally have "leading_newlines ?x = 0" by simp
      with ih have "few_newlines (nl # nl # ?x)"
        by (simp add: few_newlines_Cons leading_newlines_Cons isspace_nl)
      then show ?thesis
        unfolding Cons sub_blank_lines_Some [OF Some] .
    qed
  qed
qed

subsection \<open>Stripping\<close>

text \<open>What \<open>strip\<close> removes is whitespace before and after what it keeps.\<close>

lemma strip_decomp:
  obtains a b where "s = a @ strip s @ b" "\<forall>c\<in>set a. isspace c" "\<forall>c\<in>set b. isspace c"
    "set a \<subseteq> set s" "set b \<subseteq> set s"
proof -
  let ?d = "dropWhile isspace s"
  let ?a = "takeWhile isspace s"
  let ?b = "rev (takeWhile isspace (rev ?d))"
  have "?d = rev (takeWhile isspace (rev ?d) @ dropWhile isspace (rev ?d))" by simp
  also have "\<dots> = rev (dropWhile isspace (rev ?d)) @ rev (takeWhile isspace (rev ?d))"
    by (rule rev_append)
  finally have d: "?d = strip s @ ?b" unfolding strip_def .
  have "s = ?a @ ?d" by simp
  with d have 1: "s = ?a @ strip s @ ?b" by simp
  have 2: "\<forall>c\<in>set ?a. isspace c" by (auto dest: set_takeWhileD)
  have 3: "\<forall>c\<in>set ?b. isspace c" by (auto dest: set_takeWhileD)
  have 4: "set ?a \<subseteq> set s" by (auto dest: set_takeWhileD)
  have "set ?b \<subseteq> set ?d" by (auto dest: set_takeWhileD)
  then have 5: "set ?b \<subseteq> set s" by (auto dest: set_dropWhileD)
  from 1 2 3 4 5 show ?thesis by (rule that)
qed

lemma strip_subset: "set (strip s) \<subseteq> set s"
proof -
  obtain a b where "s = a @ strip s @ b" by (rule strip_decomp)
  then have "set s = set a \<union> set (strip s) \<union> set b"
    by (metis set_append sup_assoc)
  then show ?thesis by blast
qed

lemma strip_fixed:
  assumes "s = [] \<or> (\<not> isspace (hd s) \<and> \<not> isspace (last s))"
  shows "strip s = s"
proof (cases s)
  case Nil
  then show ?thesis by (simp add: strip_def)
next
  case (Cons c cs)
  with assms have h: "\<not> isspace c" and l: "\<not> isspace (last s)" by simp_all
  from h have "dropWhile isspace s = s" by (simp add: Cons)
  moreover have "dropWhile isspace (rev s) = rev s"
  proof -
    from Cons obtain x xs where r: "rev s = x # xs" by (cases "rev s") auto
    then have "rev (rev s) = rev (x # xs)" by (rule arg_cong)
    then have "s = rev xs @ [x]" by simp
    then have "last s = x" by simp
    with l r show ?thesis by simp
  qed
  ultimately show ?thesis by (simp add: strip_def)
qed

lemma strip_ends:
  "strip s = [] \<or> (\<not> isspace (hd (strip s)) \<and> \<not> isspace (last (strip s)))"
proof (cases "strip s = []")
  case True
  then show ?thesis by simp
next
  case False
  let ?d = "dropWhile isspace s"
  let ?e = "dropWhile isspace (rev ?d)"
  have s: "strip s = rev ?e" by (simp add: strip_def)
  with False have e: "?e \<noteq> []" by simp
  then have "\<not> isspace (hd ?e)" by (rule hd_dropWhile)
  then have last: "\<not> isspace (last (strip s))"
    using e by (simp add: s last_rev)
  have "?d = rev (takeWhile isspace (rev ?d) @ ?e)" by simp
  also have "\<dots> = rev ?e @ rev (takeWhile isspace (rev ?d))" by (rule rev_append)
  finally have dd: "?d = strip s @ rev (takeWhile isspace (rev ?d))" unfolding s .
  with False have d: "?d \<noteq> []" by (metis append_is_Nil_conv)
  then have hd: "\<not> isspace (hd ?d)" by (rule hd_dropWhile)
  from dd False have "hd ?d = hd (strip s)" by (metis hd_append2)
  with hd last show ?thesis by simp
qed

lemma strip_idem: "strip (strip s) = strip s"
  by (rule strip_fixed) (rule strip_ends)

subsection \<open>Splitting into lines and joining them\<close>

lemma split_nl_nonempty: "split_nl s \<noteq> []"
  by (induction s) (auto split: list.splits)

lemma join_Cons: "join sep (x # xs) = (if xs = [] then x else x @ sep @ join sep xs)"
  by (cases xs) simp_all

lemma join_split: "join [nl] (split_nl s) = s"
proof (induction s)
  case Nil
  then show ?case by simp
next
  case (Cons c cs)
  then show ?case
    using split_nl_nonempty [of cs]
    by (cases "split_nl cs") (auto simp: join_Cons)
qed

lemma split_nl_no_newline: "l \<in> set (split_nl s) \<Longrightarrow> nl \<notin> set l"
proof (induction s arbitrary: l)
  case Nil
  then show ?case by simp
next
  case (Cons c cs)
  then show ?case
    by (cases "split_nl cs") (auto split: if_splits)
qed

lemma split_nl_append:
  "nl \<notin> set x \<Longrightarrow> split_nl (x @ nl # s) = x # split_nl s"
  by (induction x) auto

lemma split_nl_line: "nl \<notin> set x \<Longrightarrow> split_nl x = [x]"
  by (induction x) auto

lemma split_join:
  "ls \<noteq> [] \<Longrightarrow> \<forall>l\<in>set ls. nl \<notin> set l \<Longrightarrow> split_nl (join [nl] ls) = ls"
proof (induction "[nl]" ls rule: join.induct)
  case 1
  then show ?case by simp
next
  case (2 x)
  then show ?case by (simp add: split_nl_line)
next
  case (3 x y ys)
  then show ?case by (simp add: split_nl_append)
qed

lemma split_nl_snoc: "split_nl (s @ [nl]) = split_nl s @ [[]]"
proof (induction s)
  case Nil
  then show ?case by simp
next
  case (Cons c cs)
  then show ?case
    using split_nl_nonempty [of cs] by (cases "split_nl cs") auto
qed

lemma split_nl_leading: "split_nl (replicate i nl @ s) = replicate i [] @ split_nl s"
  by (induction i) auto

lemma split_nl_trailing: "split_nl (s @ replicate j nl) = split_nl s @ replicate j []"
proof (induction j)
  case 0
  then show ?case by simp
next
  case (Suc j)
  have "s @ replicate (Suc j) nl = (s @ replicate j nl) @ [nl]"
    by (simp add: replicate_append_same)
  then have "split_nl (s @ replicate (Suc j) nl) = split_nl (s @ replicate j nl) @ [[]]"
    by (simp only: split_nl_snoc)
  with Suc show ?case by (simp add: replicate_append_same)
qed

subsection \<open>Steps 4 and 5 keep what the substitutions established\<close>

lemma no_double_space_append:
  "no_double_space (a @ b) \<Longrightarrow> no_double_space a \<and> no_double_space b"
  by (simp add: no_double_space_def successively_append_iff)

lemma no_double_space_strip: "no_double_space s \<Longrightarrow> no_double_space (strip s)"
proof -
  assume s: "no_double_space s"
  obtain a b where "s = a @ strip s @ b" by (rule strip_decomp)
  with s have "no_double_space (a @ strip s @ b)" by simp
  then show ?thesis by (blast dest: no_double_space_append)
qed

lemma no_double_space_join:
  "no_double_space (join [nl] ls) \<longleftrightarrow> (\<forall>l\<in>set ls. no_double_space l)"
proof (induction "[nl]" ls rule: join.induct)
  case 1
  then show ?case by (simp add: no_double_space_def)
next
  case (2 x)
  then show ?case by simp
next
  case (3 x y ys)
  have "no_double_space (x @ nl # join [nl] (y # ys)) \<longleftrightarrow>
          no_double_space x \<and> no_double_space (join [nl] (y # ys))"
    using sp_neq_nl
    by (auto simp: no_double_space_def successively_append_iff successively_Cons)
  with 3 show ?case by simp
qed

lemma no_double_space_lines:
  assumes "no_double_space s"
  shows "no_double_space (strip (join [nl] (map strip (split_nl s))))"
proof -
  from assms have "no_double_space (join [nl] (split_nl s))" by (simp add: join_split)
  then have "\<forall>l\<in>set (split_nl s). no_double_space l" by (simp add: no_double_space_join)
  then have "\<forall>l\<in>set (map strip (split_nl s)). no_double_space l"
    by (auto intro: no_double_space_strip)
  then have "no_double_space (join [nl] (map strip (split_nl s)))"
    by (simp only: no_double_space_join)
  then show ?thesis by (rule no_double_space_strip)
qed

lemma trimmed_refl: "trimmed s s"
  by (induction s) (auto intro: trimmed.intros)

lemma trimmed_append: "trimmed a a' \<Longrightarrow> trimmed b b' \<Longrightarrow> trimmed (a @ b) (a' @ b')"
  by (induction rule: trimmed.induct) (auto intro: trimmed.intros)

lemma trimmed_all: "\<forall>c\<in>set a. isspace c \<and> c \<noteq> nl \<Longrightarrow> trimmed a []"
  by (induction a) (auto intro: trimmed.intros)

lemma trimmed_strip:
  assumes "nl \<notin> set l"
  shows "trimmed l (strip l)"
proof -
  obtain a b where l: "l = a @ strip l @ b" and a: "\<forall>c\<in>set a. isspace c"
    and b: "\<forall>c\<in>set b. isspace c" and sa: "set a \<subseteq> set l" and sb: "set b \<subseteq> set l"
    by (rule strip_decomp)
  from a sa assms have "trimmed a []" by (intro trimmed_all) auto
  moreover from b sb assms have "trimmed b []" by (intro trimmed_all) auto
  ultimately have "trimmed (a @ strip l @ b) ([] @ strip l @ [])"
    by (intro trimmed_append trimmed_refl)
  with l show ?thesis by simp
qed

lemma trimmed_join:
  "\<forall>l\<in>set ls. nl \<notin> set l \<Longrightarrow> trimmed (join [nl] ls) (join [nl] (map strip ls))"
proof (induction "[nl]" ls rule: join.induct)
  case 1
  then show ?case by (simp add: trimmed_Nil)
next
  case (2 x)
  then show ?case by (simp add: trimmed_strip)
next
  case (3 x y ys)
  then have "trimmed (join [nl] (y # ys)) (join [nl] (map strip (y # ys)))" by simp
  then have "trimmed (nl # join [nl] (y # ys)) (nl # join [nl] (map strip (y # ys)))"
    by (rule trimmed_keep)
  moreover from 3 have "trimmed x (strip x)" by (simp add: trimmed_strip)
  ultimately have "trimmed (x @ nl # join [nl] (y # ys)) (strip x @ nl # join [nl] (map strip (y # ys)))"
    by (rule trimmed_append [rotated])
  then show ?case by simp
qed

lemma trimmed_leading_newlines: "trimmed s t \<Longrightarrow> leading_newlines t = leading_newlines s"
  by (induction rule: trimmed.induct) (simp_all add: leading_newlines_Cons)

lemma trimmed_few_newlines: "trimmed s t \<Longrightarrow> few_newlines s \<Longrightarrow> few_newlines t"
proof (induction rule: trimmed.induct)
  case trimmed_Nil
  then show ?case by simp
next
  case (trimmed_keep s t c)
  from trimmed_keep.hyps have "trimmed (c # s) (c # t)" by (rule trimmed.trimmed_keep)
  then have "leading_newlines (c # t) = leading_newlines (c # s)"
    by (rule trimmed_leading_newlines)
  with trimmed_keep show ?case by (simp add: few_newlines_Cons)
next
  case (trimmed_drop c s t)
  then show ?case by (simp add: few_newlines_Cons)
qed

lemma leading_newlines_append_le: "leading_newlines u \<le> leading_newlines (u @ b)"
  by (induction u) (simp_all add: leading_newlines_Cons leading_newlines_Nil)

lemma few_newlines_prefix: "few_newlines (t @ b) \<Longrightarrow> few_newlines t"
proof (induction t)
  case Nil
  then show ?case by (simp add: few_newlines_def leading_newlines_Nil)
next
  case (Cons c cs)
  then show ?case
    using leading_newlines_append_le [of "c # cs" b] by (simp add: few_newlines_Cons)
qed

lemma few_newlines_strip: "few_newlines s \<Longrightarrow> few_newlines (strip s)"
proof -
  assume s: "few_newlines s"
  obtain a b where ab: "s = a @ strip s @ b" by (rule strip_decomp)
  from s have "few_newlines (drop (length a) s)"
    unfolding few_newlines_def by (rule all_suffixes_drop)
  also have "drop (length a) s = strip s @ b" by (subst ab) simp
  finally show ?thesis by (rule few_newlines_prefix)
qed

lemma few_newlines_lines:
  assumes "few_newlines s"
  shows "few_newlines (strip (join [nl] (map strip (split_nl s))))"
proof -
  have "trimmed (join [nl] (split_nl s)) (join [nl] (map strip (split_nl s)))"
    by (rule trimmed_join) (auto dest: split_nl_no_newline)
  then have "trimmed s (join [nl] (map strip (split_nl s)))" by (simp add: join_split)
  from this assms have "few_newlines (join [nl] (map strip (split_nl s)))"
    by (rule trimmed_few_newlines)
  then show ?thesis by (rule few_newlines_strip)
qed

subsection \<open>Stripped lines stay stripped\<close>

lemma ws_prefix_newlines:
  "\<forall>l\<in>set ls. l = [] \<or> \<not> isspace (hd l) \<Longrightarrow> join [nl] ls = a @ r \<Longrightarrow>
   \<forall>c\<in>set a. isspace c \<Longrightarrow> \<forall>c\<in>set a. c = nl"
proof (induction "[nl]" ls arbitrary: a r rule: join.induct)
  case 1
  then show ?case by simp
next
  case (2 x)
  show ?case
  proof (cases a)
    case Nil
    then show ?thesis by simp
  next
    case (Cons c cs)
    with 2 have "x \<noteq> []" "hd x = c" "isspace c" by auto
    with 2 show ?thesis by simp
  qed
next
  case (3 x y ys)
  show ?case
  proof (cases a)
    case Nil
    then show ?thesis by simp
  next
    case (Cons c cs)
    show ?thesis
    proof (cases x)
      case Nil
      with "3.prems"(2) Cons have c: "c = nl" and j: "join [nl] (y # ys) = cs @ r" by simp_all
      from "3.prems" have "\<forall>l\<in>set (y # ys). l = [] \<or> \<not> isspace (hd l)" by simp
      moreover from "3.prems"(3) Cons have "\<forall>c\<in>set cs. isspace c" by simp
      ultimately have "\<forall>c\<in>set cs. c = nl" using j by (intro "3.hyps")
      with c Cons show ?thesis by simp
    next
      case (Cons d ds)
      with "3.prems"(2) \<open>a = c # cs\<close> have "d = c" by simp
      moreover from "3.prems"(1) Cons have "\<not> isspace d" by simp
      moreover from "3.prems"(3) \<open>a = c # cs\<close> have "isspace c" by simp
      ultimately show ?thesis by simp
    qed
  qed
qed

lemma join_snoc: "ls \<noteq> [] \<Longrightarrow> join sep (ls @ [l]) = join sep ls @ sep @ l"
  by (induction sep ls rule: join.induct) simp_all

lemma ws_suffix_newlines:
  "\<forall>l\<in>set ls. l = [] \<or> \<not> isspace (last l) \<Longrightarrow> join [nl] ls = r @ b \<Longrightarrow>
   \<forall>c\<in>set b. isspace c \<Longrightarrow> \<forall>c\<in>set b. c = nl"
proof (induction ls arbitrary: b r rule: rev_induct)
  case Nil
  then show ?case by simp
next
  case (snoc l ls)
  show ?case
  proof (cases "b = []")
    case True
    then show ?thesis by simp
  next
    case False
    then have b: "b = butlast b @ [last b]" by simp
    from snoc.prems(3) False have wl: "isspace (last b)" by simp
    have j: "join [nl] (ls @ [l]) = (if ls = [] then l else join [nl] ls @ nl # l)"
      by (simp add: join_snoc)
    show ?thesis
    proof (cases "l = []")
      case lne: False
      with j have "last (join [nl] (ls @ [l])) = last l" by simp
      with snoc.prems(2) False have "last l = last b" by simp
      with snoc.prems(1) lne wl show ?thesis by simp
    next
      case True
      show ?thesis
      proof (cases "ls = []")
        case True
        with \<open>l = []\<close> snoc.prems(2) False show ?thesis by simp
      next
        case lsne: False
        with j True have "join [nl] ls @ [nl] = r @ b" using snoc.prems(2) by simp
        with b have "join [nl] ls @ [nl] = (r @ butlast b) @ [last b]" by simp
        then have e: "join [nl] ls = r @ butlast b" and lb: "last b = nl"
          by (simp_all only: append1_eq_conv)
        from snoc.prems(1) have "\<forall>l\<in>set ls. l = [] \<or> \<not> isspace (last l)" by simp
        moreover from snoc.prems(3) have "\<forall>c\<in>set (butlast b). isspace c"
          by (auto dest: in_set_butlastD)
        ultimately have "\<forall>c\<in>set (butlast b). c = nl" using e by (intro snoc.IH)
        with lb have "\<forall>c\<in>set (butlast b @ [last b]). c = nl" by simp
        with b show ?thesis by simp
      qed
    qed
  qed
qed

lemma lines_fixed:
  assumes "ls \<noteq> []" and "\<forall>l\<in>set ls. strip l = l \<and> nl \<notin> set l"
  shows "join [nl] (map strip (split_nl (strip (join [nl] ls)))) = strip (join [nl] ls)"
proof -
  let ?t = "strip (join [nl] ls)"
  obtain a b where ab: "join [nl] ls = a @ ?t @ b" and a: "\<forall>c\<in>set a. isspace c"
    and b: "\<forall>c\<in>set b. isspace c"
    by (rule strip_decomp)
  have ends: "\<forall>l\<in>set ls. l = [] \<or> (\<not> isspace (hd l) \<and> \<not> isspace (last l))"
  proof
    fix l
    assume "l \<in> set ls"
    with assms(2) have "strip l = l" by simp
    with strip_ends [of l] show "l = [] \<or> (\<not> isspace (hd l) \<and> \<not> isspace (last l))" by simp
  qed
  from ends have "\<forall>l\<in>set ls. l = [] \<or> \<not> isspace (hd l)" by blast
  from this ab a have "\<forall>c\<in>set a. c = nl" by (rule ws_prefix_newlines)
  then have ra: "a = replicate (length a) nl"
    by (simp add: replicate_length_same)
  from ends have "\<forall>l\<in>set ls. l = [] \<or> \<not> isspace (last l)" by blast
  moreover from ab have "join [nl] ls = (a @ ?t) @ b" by simp
  ultimately have "\<forall>c\<in>set b. c = nl" using b by (rule ws_suffix_newlines)
  then have rb: "b = replicate (length b) nl"
    by (simp add: replicate_length_same)
  from assms have "split_nl (join [nl] ls) = ls" by (simp add: split_join)
  then have "ls = split_nl (a @ ?t @ b)" using ab by simp
  also have "\<dots> = split_nl (replicate (length a) nl @ ?t @ replicate (length b) nl)"
    using ra rb by simp
  also have "\<dots> = replicate (length a) [] @ split_nl ?t @ replicate (length b) []"
    by (simp only: split_nl_leading split_nl_trailing)
  finally have "set (split_nl ?t) \<subseteq> set ls" by (metis set_append Un_upper1 Un_upper2 subset_trans)
  with assms(2) have "\<forall>l\<in>set (split_nl ?t). strip l = l" by blast
  then have "map strip (split_nl ?t) = split_nl ?t" by (simp add: map_idI)
  then show ?thesis by (simp add: join_split)
qed

subsection \<open>Idempotence\<close>

text \<open>
  C1: the normalizer is idempotent.  A normalized text has no two spaces in a row, at
  most two newlines in any run of whitespace, stripped lines, and no whitespace at
  either end; on such a text each of the five steps changes nothing.
\<close>
theorem clean_text_idempotent: "clean_text (clean_text s) = clean_text s"
proof -
  define t3 where
    "t3 = re_sub blank_lines [nl, nl] (re_sub [AtLeast 3 (chr nl)] [nl, nl] (re_sub [Plus (chr sp)] [sp] s))"
  define ls where "ls = map strip (split_nl t3)"
  define t where "t = strip (join [nl] ls)"
  have t: "clean_text s = t"
    by (simp add: clean_text_def t_def ls_def t3_def)
  have "no_double_space t3"
    unfolding t3_def by (intro no_double_space_re_sub no_double_space_sub_spaces)
  then have nd: "no_double_space t"
    unfolding t_def ls_def by (rule no_double_space_lines)
  have "few_newlines t3"
    unfolding t3_def by (rule few_newlines_sub_blank_lines)
  then have fn: "few_newlines t"
    unfolding t_def ls_def by (rule few_newlines_lines)
  have "ls \<noteq> []" by (simp add: ls_def split_nl_nonempty)
  moreover have "\<forall>l\<in>set ls. strip l = l \<and> nl \<notin> set l"
    unfolding ls_def using strip_subset
    by (auto simp: strip_idem dest: split_nl_no_newline)
  ultimately have lines: "join [nl] (map strip (split_nl t)) = t"
    unfolding t_def by (rule lines_fixed)
  have st: "strip t = t" by (simp add: t_def strip_idem)
  have "clean_text t = t"
    unfolding clean_text_def Let_def
    by (simp only: sub_spaces_fixed [OF nd] three_newlines_fixed [OF fn]
          blank_lines_fixed [OF fn] lines st)
  with t show ?thesis by simp
qed

theorem clean_text_idempotent_witness:
  "clean_text (clean_text [sp, sp, 97, sp, sp, 98, sp, nl, 9, nl, sp, sp, nl, nl, 99, nl, 13, nl]) =
     clean_text [sp, sp, 97, sp, sp, 98, sp, nl, 9, nl, sp, sp, nl, nl, 99, nl, 13, nl] \<and>
   clean_text [sp, sp, 97, sp, sp, 98, sp, nl, 9, nl, sp, sp, nl, nl, 99, nl, 13, nl] =
     [97, sp, 98, nl, nl, 99]"
proof -
  have "clean_text [sp, sp, 97, sp, sp, 98, sp, nl, 9, nl, sp, sp, nl, nl, 99, nl, 13, nl] =
      [97, sp, 98, nl, nl, 99]"
    by (simp add: clean_eval del: match_here.simps(2))
  with clean_text_idempotent [of "[sp, sp, 97, sp, sp, 98, sp, nl, 9, nl, sp, sp, nl, nl, 99, nl, 13, nl]"]
  show ?thesis by simp
qed

end
